theory Spec2Isabelle
  imports Complex_Main "HOL-Library.Word"
begin

unbundle bit_operations_syntax

section \<open>render-flow.js: the flag set\<close>

text \<open>
  Render flags are JavaScript numbers that only ever meet the bitwise operators
  \<open>&\<close>, \<open>|\<close>, \<open>~\<close> and small constants. They are modelled as \<open>int\<close> with the
  two's-complement bit operations of HOL, which agree with JavaScript's on every value
  in the 32-bit signed range.
\<close>

definition DONOTHING :: int where "DONOTHING = 0"
definition LOCAL_TRANSFORM :: int where "LOCAL_TRANSFORM = push_bit 0 1"
definition WORLD_TRANSFORM :: int where "WORLD_TRANSFORM = push_bit 1 1"
definition TRANSFORM :: int where "TRANSFORM = LOCAL_TRANSFORM OR WORLD_TRANSFORM"
definition UPDATE_RENDER_DATA :: int where "UPDATE_RENDER_DATA = push_bit 2 1"
definition OPACITY :: int where "OPACITY = push_bit 3 1"
definition COLOR :: int where "COLOR = push_bit 4 1"
definition RENDER :: int where "RENDER = push_bit 5 1"
definition CUSTOM_IA_RENDER :: int where "CUSTOM_IA_RENDER = push_bit 6 1"
definition CHILDREN :: int where "CHILDREN = push_bit 7 1"
definition POST_UPDATE_RENDER_DATA :: int where "POST_UPDATE_RENDER_DATA = push_bit 8 1"
definition POST_RENDER :: int where "POST_RENDER = push_bit 9 1"
definition FINAL :: int where "FINAL = push_bit 10 1"

section \<open>Flow objects on a heap\<close>

text \<open>
  A \<open>RenderFlow\<close> object has a \<open>_func\<close> and a \<open>_next\<close>. Objects have identity (the
  sentinel points to itself, the cache shares chains), so they live in a heap: a list of
  objects, an object's reference being its index. \<open>None\<close> is \<open>null\<close>/\<open>undefined\<close>.
  \<open>F_init\<close> is the module function \<open>init\<close>, the others are the prototype's methods.
\<close>

datatype func =
    F_init | F_doNothing | F_localTransform | F_worldTransform | F_color | F_opacity
  | F_updateRenderData | F_render | F_customIARender | F_children
  | F_postUpdateRenderData | F_postRender

record RenderFlow =
  flow_func :: func
  flow_next :: "nat option"

type_synonym heap = "RenderFlow list"

text \<open>\<open>new RenderFlow()\<close>: the constructor sets \<open>_func = init\<close> and \<open>_next = null\<close>.\<close>

definition new_RenderFlow :: RenderFlow where
  "new_RenderFlow = \<lparr>flow_func = F_init, flow_next = None\<rparr>"

text \<open>
  \<open>EMPTY_FLOW\<close> is the first object the module allocates; it is then given
  \<open>_func = _doNothing\<close> and \<open>_next = EMPTY_FLOW\<close>.
\<close>

definition EMPTY_FLOW :: nat where "EMPTY_FLOW = 0"

definition module_heap :: heap where
  "module_heap =
     (let h = [new_RenderFlow];
          h = h[EMPTY_FLOW := (h ! EMPTY_FLOW)\<lparr>flow_func := F_doNothing\<rparr>];
          h = h[EMPTY_FLOW := (h ! EMPTY_FLOW)\<lparr>flow_next := Some EMPTY_FLOW\<rparr>]
      in h)"

text \<open>
  \<open>createFlow(flag, next)\<close>: a new object with \<open>_next = next || EMPTY_FLOW\<close>; the
  \<open>switch\<close> has no default, so a flag that matches no case keeps the constructor's
  \<open>init\<close>.
\<close>

definition createFlow :: "int \<Rightarrow> nat option \<Rightarrow> heap \<Rightarrow> nat \<times> heap" where
  "createFlow flag nxt h =
     (let flow = new_RenderFlow;
          flow = flow\<lparr>flow_next := (case nxt of None \<Rightarrow> Some EMPTY_FLOW | Some r \<Rightarrow> Some r)\<rparr>;
          flow =
            (if flag = DONOTHING then flow\<lparr>flow_func := F_doNothing\<rparr>
             else if flag = LOCAL_TRANSFORM then flow\<lparr>flow_func := F_localTransform\<rparr>
             else if flag = WORLD_TRANSFORM then flow\<lparr>flow_func := F_worldTransform\<rparr>
             else if flag = COLOR then flow\<lparr>flow_func := F_color\<rparr>
             else if flag = OPACITY then flow\<lparr>flow_func := F_opacity\<rparr>
             else if flag = UPDATE_RENDER_DATA then flow\<lparr>flow_func := F_updateRenderData\<rparr>
             else if flag = RENDER then flow\<lparr>flow_func := F_render\<rparr>
             else if flag = CUSTOM_IA_RENDER then flow\<lparr>flow_func := F_customIARender\<rparr>
             else if flag = CHILDREN then flow\<lparr>flow_func := F_children\<rparr>
             else if flag = POST_UPDATE_RENDER_DATA then flow\<lparr>flow_func := F_postUpdateRenderData\<rparr>
             else if flag = POST_RENDER then flow\<lparr>flow_func := F_postRender\<rparr>
             else flow)
      in (length h, h @ [flow]))"

text \<open>
  \<open>getFlow(flag)\<close>: the \<open>while (tFlag > 0)\<close> loop, from \<open>tFlag = FINAL\<close> down, with
  \<open>tFlag >> 1\<close> as \<open>drop_bit 1\<close>. The result is \<open>null\<close> when no bit matched.
\<close>

function getFlow_loop :: "int \<Rightarrow> int \<Rightarrow> nat option \<Rightarrow> heap \<Rightarrow> nat option \<times> heap" where
  "getFlow_loop flag tFlag flow h =
     (if tFlag > 0 then
        (if tFlag AND flag \<noteq> 0 then
           (let (r, h') = createFlow tFlag flow h
            in getFlow_loop flag (drop_bit 1 tFlag) (Some r) h')
         else getFlow_loop flag (drop_bit 1 tFlag) flow h)
      else (flow, h))"
  by pat_completeness auto
termination
  by (relation "measure (\<lambda>(flag, tFlag, flow, h). nat tFlag)")
     (auto simp: drop_bit_eq_div)

declare getFlow_loop.simps [simp del]

definition getFlow :: "int \<Rightarrow> heap \<Rightarrow> nat option \<times> heap" where
  "getFlow flag h = getFlow_loop flag FINAL None h"

section \<open>The chain a mask should compile to\<close>

text \<open>
  The stages in ascending bit order, as the specification lists them; \<open>expected_stages m\<close>
  has one stage for each of the bits 0..9 set in \<open>m\<close>, lowest bit first.
  \<open>chain_from h r fs\<close> reads the heap: following \<open>_next\<close> from \<open>r\<close> passes through
  objects whose functions are exactly \<open>fs\<close> and then arrives at \<open>EMPTY_FLOW\<close>.
\<close>

definition stage_names :: "func list" where
  "stage_names =
     [F_localTransform, F_worldTransform, F_updateRenderData, F_opacity, F_color,
      F_render, F_customIARender, F_children, F_postUpdateRenderData, F_postRender]"

definition expected_stages :: "int \<Rightarrow> func list" where
  "expected_stages m = map (\<lambda>k. stage_names ! k) (filter (\<lambda>k. bit m k) [0..<10])"

fun chain_from :: "heap \<Rightarrow> nat \<Rightarrow> func list \<Rightarrow> bool" where
  "chain_from h r [] = (r = EMPTY_FLOW)"
| "chain_from h r (f # fs) =
     (r \<noteq> EMPTY_FLOW \<and> r < length h \<and> flow_func (h ! r) = f \<and>
      (case flow_next (h ! r) of None \<Rightarrow> False | Some r' \<Rightarrow> chain_from h r' fs))"

definition ref_or_empty :: "nat option \<Rightarrow> nat" where
  "ref_or_empty flow = (case flow of None \<Rightarrow> EMPTY_FLOW | Some r \<Rightarrow> r)"

definition stages_below :: "nat \<Rightarrow> int \<Rightarrow> func list" where
  "stages_below k m = map (\<lambda>k. stage_names ! k) (filter (\<lambda>k. bit m k) [0..<k])"

section \<open>Nodes, components and the traversal state\<close>

text \<open>
  A failing property access (\<open>x.f\<close> with \<open>x\<close> null or undefined) raises a
  \<open>TypeError\<close>. A result is \<open>Some (Inr v)\<close> for a normal return, \<open>Some (Inl e)\<close> for
  an exception that reaches the caller, and \<open>None\<close> when the call depth given to the
  interpreter below was not enough.
\<close>

datatype error = TypeError

type_synonym 'a res = "(error + 'a) option"

definition ok :: "'a \<Rightarrow> 'a res" where
  "ok x = Some (Inr x)"

definition throw :: "error \<Rightarrow> 'a res" where
  "throw e = Some (Inl e)"

definition bind_res :: "'a res \<Rightarrow> ('a \<Rightarrow> 'b res) \<Rightarrow> 'b res" where
  "bind_res m f =
     (case m of None \<Rightarrow> None | Some (Inl e) \<Rightarrow> Some (Inl e) | Some (Inr x) \<Rightarrow> f x)"

text \<open>
  CCMask.js: the mask type, and the fields of a \<open>cc.Mask\<close> that the two mask assemblers
  read or write. Objects this model does not look into are kept as their presence only:
  \<open>spriteFrame\<close>, \<open>frontMaterial\<close>, \<open>endMaterial\<close> and \<open>renderData\<close> say whether the
  field holds an object; \<open>material\<close> says which of the two materials \<open>_material\<close> is;
  \<open>graphics\<close> is the identity of the pooled graphics component in \<open>_graphics\<close>.
\<close>

datatype MaskType = RECT | ELLIPSE | IMAGE_STENCIL

datatype stencil_material = FrontMaterial | EndMaterial

record mask_comp =
  mtype :: MaskType
  spriteFrame :: bool
  frontMaterial :: bool
  endMaterial :: bool
  material :: "stencil_material option"
  graphics :: "nat option"
  renderData :: bool

text \<open>
  A render component is a mask or some other visual component. Of the other components
  only their existence matters to the traversal; their assembler is outside this code.
  \<open>Mask._assembler\<close> is the front assembler and \<open>Mask._postAssembler\<close> the end assembler;
  an ordinary component has an assembler and no post assembler.
\<close>

datatype component = PlainComp | MaskComp mask_comp

datatype assembler = ComponentAssembler | MaskFrontAssembler | MaskEndAssembler

definition comp_assembler :: "component \<Rightarrow> assembler option" where
  "comp_assembler c = (case c of PlainComp \<Rightarrow> Some ComponentAssembler
                               | MaskComp m \<Rightarrow> Some MaskFrontAssembler)"

definition comp_postAssembler :: "component \<Rightarrow> assembler option" where
  "comp_postAssembler c = (case c of PlainComp \<Rightarrow> None
                                   | MaskComp m \<Rightarrow> Some MaskEndAssembler)"

text \<open>
  Modelled from the spec: \<open>cc.Color\<close> is not among the sources. The spec speaks of a stored
  colour value whose alpha channel is overwritten; \<open>_val\<close> is kept as its colour channels
  and its alpha channel, and \<open>_fastSetA\<close> overwrites the alpha channel.
  Opacities are JavaScript numbers; they are modelled as reals, and nothing proved below
  depends on how their products are rounded.
\<close>

record color_val =
  val_rgb :: nat
  val_a :: real

definition fastSetA :: "color_val \<Rightarrow> real \<Rightarrow> color_val" where
  "fastSetA v a = v\<lparr>val_a := a\<rparr>"

text \<open>
  The fields of a node that render-flow.js and the mask assemblers touch. \<open>nid\<close> names
  the node in the trace; \<open>parent\<close> is \<open>_parent\<close> (the parent's name, or null). A
  component sits in its node, so \<open>comp.node\<close> is the node that holds it. Matrices and
  positions are not modelled: the calls that compute them are recorded in the trace.
\<close>

record node_data =
  nid :: nat
  parent :: "nat option"
  renderFlag :: int
  opacity :: real
  customInvisibleFlag :: bool
  activeInHierarchy :: bool
  groupIndex :: int
  cullingMask :: int
  color_val :: color_val
  renderComponent :: "component option"

datatype node = Node (dat: node_data) (children: "node list")

definition upd :: "(node_data \<Rightarrow> node_data) \<Rightarrow> node \<Rightarrow> node" where
  "upd f n = Node (f (dat n)) (children n)"

definition set_flag :: "int \<Rightarrow> node \<Rightarrow> node" where
  "set_flag b n = upd (\<lambda>d. d\<lparr>renderFlag := renderFlag d OR b\<rparr>) n"

definition clear_flag :: "int \<Rightarrow> node \<Rightarrow> node" where
  "clear_flag b n = upd (\<lambda>d. d\<lparr>renderFlag := renderFlag d AND NOT b\<rparr>) n"

text \<open>
  Calls that leave this code are recorded, in order, in a trace: the node's matrix
  methods, the component's \<open>_updateColor\<close>, the assemblers of other components, the
  sink (\<open>_walker._commitComp\<close>, \<open>_walker._commitIA\<close>) and the stencil manager.
\<close>

datatype ext_assembler = OwnAssembler | SpriteAssembler | GraphicsAssembler

datatype event =
    UpdateLocalMatrix nat
  | CalculWorldMatrix nat
  | MulMat nat nat
  | UpdateColor nat color_val
  | ExtUpdateRenderData ext_assembler nat
  | ExtFillBuffers ext_assembler nat
  | CommitComp nat assembler int
  | CommitIA nat assembler int
  | PushMask nat
  | PopMask "nat option"

text \<open>
  The walker's three traversal fields, and the module's variables: \<open>_walker\<close> (null
  until \<open>RenderFlow.init\<close>), \<open>_cullingMask\<close>, the cache \<open>flows\<close>, the heap of flow
  objects; then the trace, the stencil manager's stack, and the mask assemblers'
  \<open>_graphicsPool\<close> with a counter for the graphics components created so far.
\<close>

record walker =
  worldMatDirty :: int
  parentOpacityDirty :: int
  parentOpacity :: real

record state =
  walker :: "walker option"
  g_cullingMask :: int
  flows :: "int \<Rightarrow> nat option"
  flow_heap :: heap
  trace :: "event list"
  maskStack :: "nat list"
  graphicsPool :: "nat list"
  graphicsCount :: nat

definition emit :: "event \<Rightarrow> state \<Rightarrow> state" where
  "emit e s = s\<lparr>trace := trace s @ [e]\<rparr>"

definition module_state :: state where
  "module_state =
     \<lparr>walker = None, g_cullingMask = 0, flows = (\<lambda>k. None), flow_heap = module_heap,
      trace = [], maskStack = [], graphicsPool = [], graphicsCount = 0\<rparr>"

text \<open>
  \<open>1 << groupIndex\<close>: JavaScript shifts a 32-bit integer by the count modulo 32 and
  reads the result as signed.
\<close>

definition js_shl1 :: "int \<Rightarrow> int" where
  "js_shl1 g = sint (push_bit (nat (g mod 32)) (1 :: 32 word))"

section \<open>The stencil manager and the sink\<close>

text \<open>
  Modelled from the spec: stencil-manager.js is not among the sources. The spec calls it an
  external stack-based manager: \<open>pushMask\<close> pushes the mask, \<open>popMask\<close> pops the top.
  The trace records each call, a pop together with the mask it removes.
\<close>

definition pushMask :: "nat \<Rightarrow> state \<Rightarrow> state" where
  "pushMask m s = emit (PushMask m) (s\<lparr>maskStack := m # maskStack s\<rparr>)"

definition popMask :: "state \<Rightarrow> state" where
  "popMask s =
     (case maskStack s of
        [] \<Rightarrow> emit (PopMask None) s
      | m # ms \<Rightarrow> emit (PopMask (Some m)) (s\<lparr>maskStack := ms\<rparr>))"

section \<open>The mask assemblers\<close>

text \<open>
  \<open>getGraphics()\<close>: pops the pool, or creates a new graphics component when the pool is
  empty.
\<close>

definition getGraphics :: "state \<Rightarrow> nat \<times> state" where
  "getGraphics s =
     (if graphicsPool s = [] then (graphicsCount s, s\<lparr>graphicsCount := graphicsCount s + 1\<rparr>)
      else (last (graphicsPool s), s\<lparr>graphicsPool := butlast (graphicsPool s)\<rparr>))"

definition set_mask :: "mask_comp \<Rightarrow> node \<Rightarrow> node" where
  "set_mask m n = upd (\<lambda>d. d\<lparr>renderComponent := Some (MaskComp m)\<rparr>) n"

text \<open>\<open>maskFrontAssembler.updateRenderData(mask)\<close>, with \<open>node = mask.node\<close>.\<close>

definition maskFront_updateRenderData :: "mask_comp \<Rightarrow> node \<Rightarrow> state \<Rightarrow> (node \<times> state) res" where
  "maskFront_updateRenderData m node s =
     (let m = (if \<not> renderData m then m\<lparr>renderData := True\<rparr> else m);
          m = m\<lparr>material := (if frontMaterial m then Some FrontMaterial else None)\<rparr>
      in if mtype m = IMAGE_STENCIL then
           (if material m \<noteq> None \<and> spriteFrame m then
              ok (set_mask m node, emit (ExtUpdateRenderData SpriteAssembler (nid (dat node))) s)
            else ok (set_mask (m\<lparr>material := None\<rparr>) node, s))
         else
           (case material m of
              None \<Rightarrow> throw TypeError
            | Some mat \<Rightarrow>
                (let (g, s) = getGraphics s;
                     m = m\<lparr>graphics := Some g\<rparr>
                 in ok (set_mask m node,
                        emit (ExtUpdateRenderData GraphicsAssembler (nid (dat node))) s))))"

text \<open>\<open>maskFrontAssembler.fillBuffers(mask, renderer)\<close>.\<close>

definition maskFront_fillBuffers :: "mask_comp \<Rightarrow> node \<Rightarrow> state \<Rightarrow> (node \<times> state) res" where
  "maskFront_fillBuffers m node s =
     bind_res
       (if mtype m \<noteq> IMAGE_STENCIL \<or> spriteFrame m then
          (let s = pushMask (nid (dat node)) s
           in if mtype m = IMAGE_STENCIL then
                ok (emit (ExtFillBuffers SpriteAssembler (nid (dat node))) s)
              else
                (case graphics m of
                   None \<Rightarrow> throw TypeError
                 | Some g \<Rightarrow> ok (emit (ExtFillBuffers GraphicsAssembler (nid (dat node))) s)))
        else ok s)
       (\<lambda>s. ok (set_flag UPDATE_RENDER_DATA node, s))"

text \<open>\<open>maskEndAssembler.updateRenderData(mask)\<close>.\<close>

definition maskEnd_updateRenderData :: "mask_comp \<Rightarrow> node \<Rightarrow> state \<Rightarrow> (node \<times> state) res" where
  "maskEnd_updateRenderData m node s =
     (let m = (if mtype m = IMAGE_STENCIL \<and> \<not> spriteFrame m then m\<lparr>material := None\<rparr>
               else m\<lparr>material := (if endMaterial m then Some EndMaterial else None)\<rparr>)
      in case material m of
           None \<Rightarrow> ok (set_mask m node, s)
         | Some mat \<Rightarrow>
             (if mtype m = IMAGE_STENCIL then
                (if renderData m then ok (set_mask m node, s) else throw TypeError)
              else
                (case graphics m of
                   None \<Rightarrow> throw TypeError
                 | Some g \<Rightarrow> ok (set_mask m node, s))))"

text \<open>\<open>maskEndAssembler.fillBuffers(mask, renderer)\<close>.\<close>

definition maskEnd_fillBuffers :: "mask_comp \<Rightarrow> node \<Rightarrow> state \<Rightarrow> (node \<times> state) res" where
  "maskEnd_fillBuffers m node s =
     bind_res
       (if mtype m \<noteq> IMAGE_STENCIL \<or> spriteFrame m then
          (let s = popMask s
           in if mtype m = IMAGE_STENCIL then
                ok (m, emit (ExtFillBuffers SpriteAssembler (nid (dat node))) s)
              else
                (case graphics m of
                   None \<Rightarrow> throw TypeError
                 | Some g \<Rightarrow>
                     (let s = emit (ExtFillBuffers GraphicsAssembler (nid (dat node))) s;
                          s = s\<lparr>graphicsPool := graphicsPool s @ [g]\<rparr>
                      in ok (m\<lparr>graphics := None\<rparr>, s))))
        else ok (m, s))
       (\<lambda>(m, s). ok (set_flag (UPDATE_RENDER_DATA OR POST_UPDATE_RENDER_DATA) (set_mask m node), s))"

text \<open>
  \<open>assembler.updateRenderData(comp)\<close> and \<open>assembler.fillBuffers(comp, renderer)\<close>,
  by assembler. The assembler of an ordinary component is outside this code: its calls
  are recorded. A mask assembler handed a component that is not a mask reads fields the
  component does not have; the traversal never does that.
\<close>

definition assembler_updateRenderData ::
    "assembler \<Rightarrow> component \<Rightarrow> node \<Rightarrow> state \<Rightarrow> (node \<times> state) res" where
  "assembler_updateRenderData a c node s =
     (case a of
        ComponentAssembler \<Rightarrow> ok (node, emit (ExtUpdateRenderData OwnAssembler (nid (dat node))) s)
      | MaskFrontAssembler \<Rightarrow>
          (case c of MaskComp m \<Rightarrow> maskFront_updateRenderData m node s
                   | PlainComp \<Rightarrow> throw TypeError)
      | MaskEndAssembler \<Rightarrow>
          (case c of MaskComp m \<Rightarrow> maskEnd_updateRenderData m node s
                   | PlainComp \<Rightarrow> throw TypeError))"

definition assembler_fillBuffers ::
    "assembler \<Rightarrow> component \<Rightarrow> node \<Rightarrow> state \<Rightarrow> (node \<times> state) res" where
  "assembler_fillBuffers a c node s =
     (case a of
        ComponentAssembler \<Rightarrow> ok (node, emit (ExtFillBuffers OwnAssembler (nid (dat node))) s)
      | MaskFrontAssembler \<Rightarrow>
          (case c of MaskComp m \<Rightarrow> maskFront_fillBuffers m node s
                   | PlainComp \<Rightarrow> throw TypeError)
      | MaskEndAssembler \<Rightarrow>
          (case c of MaskComp m \<Rightarrow> maskEnd_fillBuffers m node s
                   | PlainComp \<Rightarrow> throw TypeError))"

text \<open>
  Modelled from the spec: the walker (the sink) is not among the sources. The spec gives
  \<open>submit(component, assembler, cullingMask)\<close> for normal content and a parallel entry
  for custom content, and has the overlay's front submission push onto the stencil
  manager during the Render stage: \<open>_commitComp\<close> records the submission and lets the
  assembler fill the buffers at once. An absent assembler cannot be called. \<open>_commitIA\<close>
  records the submission.
\<close>

definition commitComp ::
    "component \<Rightarrow> assembler option \<Rightarrow> int \<Rightarrow> node \<Rightarrow> state \<Rightarrow> (node \<times> state) res" where
  "commitComp c a cm node s =
     (case a of
        None \<Rightarrow> throw TypeError
      | Some asm \<Rightarrow> assembler_fillBuffers asm c node (emit (CommitComp (nid (dat node)) asm cm) s))"

definition commitIA ::
    "component \<Rightarrow> assembler option \<Rightarrow> int \<Rightarrow> node \<Rightarrow> state \<Rightarrow> (node \<times> state) res" where
  "commitIA c a cm node s =
     (case a of
        None \<Rightarrow> throw TypeError
      | Some asm \<Rightarrow> ok (node, emit (CommitIA (nid (dat node)) asm cm) s))"

text \<open>
  Modelled from the spec: CCRenderComponent.js, which holds \<open>comp._updateColor()\<close>, is not
  among the sources. The spec has the Color stage ask the component to recompute its
  rendered colour, clear the stage's own bit and continue, and \<open>_proto._color\<close> leaves
  everything before the continuation to this call when the node has a component. So the
  call is recorded with the node's colour value at that moment, and it clears the COLOR
  bit of the component's node.
\<close>

definition comp_updateColor :: "component \<Rightarrow> node \<Rightarrow> state \<Rightarrow> node \<times> state" where
  "comp_updateColor c node s =
     (clear_flag COLOR node, emit (UpdateColor (nid (dat node)) (color_val (dat node))) s)"

section \<open>render-flow.js: the stage functions\<close>

text \<open>
  Each prototype method is a function of the node and the state, with two more
  parameters where the source calls on: \<open>nxt\<close> is \<open>this._next._func\<close>, and in the
  Children stage \<open>disp\<close> is the dispatch \<open>flows[c._renderFlag]._func(c)\<close>.
  Every stage from \<open>_worldTransform\<close> on starts with the same test.
\<close>

type_synonym cont = "node \<Rightarrow> state \<Rightarrow> (node \<times> state) res"

definition invisible :: "node \<Rightarrow> bool" where
  "invisible node = (opacity (dat node) = 0 \<or> customInvisibleFlag (dat node))"

definition flow_doNothing :: cont where
  "flow_doNothing node s = ok (node, s)"

definition flow_localTransform :: "cont \<Rightarrow> cont" where
  "flow_localTransform nxt node s =
     (let s = emit (UpdateLocalMatrix (nid (dat node))) s;
          node = clear_flag LOCAL_TRANSFORM node
      in nxt node s)"

definition flow_worldTransform :: "cont \<Rightarrow> cont" where
  "flow_worldTransform nxt node s =
     (if invisible node then ok (node, s)
      else case walker s of
        None \<Rightarrow> throw TypeError
      | Some w \<Rightarrow>
          (let s = s\<lparr>walker := Some (w\<lparr>worldMatDirty := worldMatDirty w + 1\<rparr>)\<rparr>
           in case parent (dat node) of
                None \<Rightarrow> throw TypeError
              | Some p \<Rightarrow>
                  (let s = emit (MulMat (nid (dat node)) p) s;
                       node = clear_flag WORLD_TRANSFORM node
                   in bind_res (nxt node s) (\<lambda>(node, s).
                        case walker s of
                          None \<Rightarrow> throw TypeError
                        | Some w \<Rightarrow>
                            ok (node, s\<lparr>walker := Some (w\<lparr>worldMatDirty := worldMatDirty w - 1\<rparr>)\<rparr>)))))"

definition flow_color :: "cont \<Rightarrow> cont" where
  "flow_color nxt node s =
     (if invisible node then ok (node, s)
      else case renderComponent (dat node) of
        Some c \<Rightarrow> (let (node, s) = comp_updateColor c node s in nxt node s)
      | None \<Rightarrow> nxt (clear_flag COLOR node) s)"

definition flow_opacity :: "cont \<Rightarrow> cont" where
  "flow_opacity nxt node s =
     (if invisible node then ok (node, s)
      else case walker s of
        None \<Rightarrow> throw TypeError
      | Some w \<Rightarrow>
          (let s = s\<lparr>walker := Some (w\<lparr>parentOpacityDirty := parentOpacityDirty w + 1\<rparr>)\<rparr>;
               node = clear_flag OPACITY node
           in bind_res (nxt node s) (\<lambda>(node, s).
                case walker s of
                  None \<Rightarrow> throw TypeError
                | Some w \<Rightarrow>
                    ok (node, s\<lparr>walker := Some (w\<lparr>parentOpacityDirty := parentOpacityDirty w - 1\<rparr>)\<rparr>))))"

definition flow_updateRenderData :: "cont \<Rightarrow> cont" where
  "flow_updateRenderData nxt node s =
     (if invisible node then ok (node, s)
      else bind_res
        (case renderComponent (dat node) of
           None \<Rightarrow> ok (node, s)
         | Some c \<Rightarrow>
             (case comp_assembler c of
                None \<Rightarrow> throw TypeError
              | Some a \<Rightarrow> assembler_updateRenderData a c node s))
        (\<lambda>(node, s). nxt (clear_flag UPDATE_RENDER_DATA node) s))"

definition flow_render :: "cont \<Rightarrow> cont" where
  "flow_render nxt node s =
     (if invisible node then ok (node, s)
      else bind_res
        (case renderComponent (dat node) of
           None \<Rightarrow> ok (node, s)
         | Some c \<Rightarrow>
             (case walker s of
                None \<Rightarrow> throw TypeError
              | Some w \<Rightarrow> commitComp c (comp_assembler c) (cullingMask (dat node)) node s))
        (\<lambda>(node, s). nxt node s))"

definition flow_customIARender :: "cont \<Rightarrow> cont" where
  "flow_customIARender nxt node s =
     (if invisible node then ok (node, s)
      else bind_res
        (case renderComponent (dat node) of
           None \<Rightarrow> ok (node, s)
         | Some c \<Rightarrow>
             (case walker s of
                None \<Rightarrow> throw TypeError
              | Some w \<Rightarrow> commitIA c (comp_assembler c) (cullingMask (dat node)) node s))
        (\<lambda>(node, s). nxt node s))"

text \<open>
  The loop of \<open>_children\<close> over \<open>node._children\<close>. \<open>cm\<close> is the saved culling mask,
  \<open>op\<close> the accumulated opacity and \<open>dirty\<close> the \<open>worldDirtyFlag\<close>; the result is the
  list of children as the loop leaves them.
\<close>

fun children_loop ::
    "cont \<Rightarrow> int \<Rightarrow> real \<Rightarrow> int \<Rightarrow> node list \<Rightarrow> state \<Rightarrow> (node list \<times> state) res" where
  "children_loop disp cm op dirty [] s = ok ([], s)"
| "children_loop disp cm op dirty (c # cs) s =
     (let c = set_flag dirty c
      in if \<not> activeInHierarchy (dat c) \<or> opacity (dat c) = 0 then
           bind_res (children_loop disp cm op dirty cs s) (\<lambda>(cs, s). ok (c # cs, s))
         else
           (let m = (if groupIndex (dat c) = 0 then cm else js_shl1 (groupIndex (dat c)));
                c = upd (\<lambda>d. d\<lparr>cullingMask := m\<rparr>) c;
                s = s\<lparr>g_cullingMask := m\<rparr>;
                colorVal = color_val (dat c);
                c = upd (\<lambda>d. d\<lparr>color_val := fastSetA (color_val d) (opacity (dat c) * op)\<rparr>) c
            in bind_res (disp c s) (\<lambda>(c, s).
                 let c = upd (\<lambda>d. d\<lparr>color_val := colorVal\<rparr>) c
                 in bind_res (children_loop disp cm op dirty cs s) (\<lambda>(cs, s). ok (c # cs, s)))))"

definition flow_children :: "cont \<Rightarrow> cont \<Rightarrow> cont" where
  "flow_children nxt disp node s =
     (if invisible node then ok (node, s)
      else
        (let cm = g_cullingMask s
         in case walker s of
              None \<Rightarrow> throw TypeError
            | Some w \<Rightarrow>
                (let parentOpacity0 = parentOpacity w;
                     op = parentOpacity w * (opacity (dat node) / 255);
                     s = s\<lparr>walker := Some (w\<lparr>parentOpacity := op\<rparr>)\<rparr>;
                     worldTransformFlag = (if worldMatDirty w \<noteq> 0 then WORLD_TRANSFORM else 0);
                     worldOpacityFlag = (if parentOpacityDirty w \<noteq> 0 then COLOR else 0);
                     worldDirtyFlag = worldTransformFlag OR worldOpacityFlag
                 in bind_res (children_loop disp cm op worldDirtyFlag (children node) s)
                      (\<lambda>(cs, s).
                         case walker s of
                           None \<Rightarrow> throw TypeError
                         | Some w \<Rightarrow>
                             (let s = s\<lparr>walker := Some (w\<lparr>parentOpacity := parentOpacity0\<rparr>)\<rparr>
                              in bind_res (nxt (Node (dat node) cs) s)
                                   (\<lambda>(node, s). ok (node, s\<lparr>g_cullingMask := cm\<rparr>)))))))"

definition flow_postUpdateRenderData :: "cont \<Rightarrow> cont" where
  "flow_postUpdateRenderData nxt node s =
     (if invisible node then ok (node, s)
      else case renderComponent (dat node) of
        None \<Rightarrow> throw TypeError
      | Some c \<Rightarrow>
          bind_res
            (case comp_postAssembler c of
               None \<Rightarrow> ok (node, s)
             | Some a \<Rightarrow> assembler_updateRenderData a c node s)
            (\<lambda>(node, s). nxt (clear_flag POST_UPDATE_RENDER_DATA node) s))"

definition flow_postRender :: "cont \<Rightarrow> cont" where
  "flow_postRender nxt node s =
     (if invisible node then ok (node, s)
      else case walker s of
        None \<Rightarrow> throw TypeError
      | Some w \<Rightarrow>
          (case renderComponent (dat node) of
             None \<Rightarrow> throw TypeError
           | Some c \<Rightarrow>
               bind_res (commitComp c (comp_postAssembler c) (cullingMask (dat node)) node s)
                 (\<lambda>(node, s). nxt node s)))"

text \<open>
  \<open>init(node)\<close>, the function of every placeholder: compile the chain for the node's
  mask, store it in the cache, call it. \<open>call r\<close> is \<open>r._func\<close>.
\<close>

definition flow_init :: "(nat option \<Rightarrow> cont) \<Rightarrow> cont" where
  "flow_init call node s =
     (let flag = renderFlag (dat node);
          (r, h) = getFlow flag (flow_heap s);
          s = s\<lparr>flows := (flows s)(flag := r), flow_heap := h\<rparr>
      in call r node s)"

section \<open>Calling a flow object\<close>

text \<open>
  \<open>call_func n r node s\<close> is the call \<open>r._func(node)\<close> in state \<open>s\<close>, where \<open>r\<close> is a
  reference or null. The calls nest (a stage calls the next one, the Children stage
  calls the chains of the children), and a heap may hold a chain that runs forever, so
  the depth of nested calls is bounded by \<open>n\<close>; \<open>None\<close> says the bound was reached.
  \<open>this._next\<close> is read when the stage calls on, from the heap as it then is.
\<close>

definition this_next :: "nat \<Rightarrow> state \<Rightarrow> nat option" where
  "this_next a s = (if a < length (flow_heap s) then flow_next (flow_heap s ! a) else None)"

primrec call_func :: "nat \<Rightarrow> nat option \<Rightarrow> cont" where
  "call_func 0 r node s = None"
| "call_func (Suc n) r node s =
     (case r of
        None \<Rightarrow> throw TypeError
      | Some a \<Rightarrow>
          if a < length (flow_heap s) then
            (let nxt = (\<lambda>node s. call_func n (this_next a s) node s);
                 disp = (\<lambda>c s. call_func n (flows s (renderFlag (dat c))) c s)
             in case flow_func (flow_heap s ! a) of
                  F_init \<Rightarrow> flow_init (call_func n) node s
                | F_doNothing \<Rightarrow> flow_doNothing node s
                | F_localTransform \<Rightarrow> flow_localTransform nxt node s
                | F_worldTransform \<Rightarrow> flow_worldTransform nxt node s
                | F_color \<Rightarrow> flow_color nxt node s
                | F_opacity \<Rightarrow> flow_opacity nxt node s
                | F_updateRenderData \<Rightarrow> flow_updateRenderData nxt node s
                | F_render \<Rightarrow> flow_render nxt node s
                | F_customIARender \<Rightarrow> flow_customIARender nxt node s
                | F_children \<Rightarrow> flow_children nxt disp node s
                | F_postUpdateRenderData \<Rightarrow> flow_postUpdateRenderData nxt node s
                | F_postRender \<Rightarrow> flow_postRender nxt node s)
          else throw TypeError)"

text \<open>The dispatch \<open>flows[node._renderFlag]._func(node)\<close>.\<close>

definition dispatch :: "nat \<Rightarrow> cont" where
  "dispatch n node s = call_func n (flows s (renderFlag (dat node))) node s"

text \<open>\<open>render(scene)\<close>.\<close>

definition render :: "nat \<Rightarrow> cont" where
  "render n scene s =
     (let s = s\<lparr>g_cullingMask := js_shl1 (groupIndex (dat scene))\<rparr>
      in if renderFlag (dat scene) AND WORLD_TRANSFORM \<noteq> 0 then
           (case walker s of
              None \<Rightarrow> throw TypeError
            | Some w \<Rightarrow>
                (let s = s\<lparr>walker := Some (w\<lparr>worldMatDirty := worldMatDirty w + 1\<rparr>)\<rparr>;
                     s = emit (CalculWorldMatrix (nid (dat scene))) s;
                     scene = clear_flag WORLD_TRANSFORM scene
                 in bind_res (dispatch n scene s) (\<lambda>(scene, s).
                      case walker s of
                        None \<Rightarrow> throw TypeError
                      | Some w \<Rightarrow>
                          ok (scene, s\<lparr>walker := Some (w\<lparr>worldMatDirty := worldMatDirty w - 1\<rparr>)\<rparr>))))
         else dispatch n scene s)"

text \<open>
  \<open>RenderFlow.init(walker)\<close>: the loop \<open>for (i = 1; i < FINAL; i++)\<close> gives every
  slot a placeholder of its own.
\<close>

function init_loop :: "int \<Rightarrow> state \<Rightarrow> state" where
  "init_loop i s =
     (if i < FINAL then
        init_loop (i + 1)
          (s\<lparr>flows := (flows s)(i := Some (length (flow_heap s))),
             flow_heap := flow_heap s @ [new_RenderFlow]\<rparr>)
      else s)"
  by pat_completeness auto
termination
  by (relation "measure (\<lambda>(i, s). nat (FINAL - i))") auto

declare init_loop.simps [simp del]

definition RenderFlow_init :: "walker \<Rightarrow> state \<Rightarrow> state" where
  "RenderFlow_init w s =
     (let s = s\<lparr>walker := Some w\<rparr>;
          s = s\<lparr>flows := (flows s)(0 := Some EMPTY_FLOW)\<rparr>
      in init_loop 1 s)"

section \<open>CCMask.js: the flags a mask sets on its node\<close>

definition markForUpdateRenderData :: "bool \<Rightarrow> bool \<Rightarrow> node \<Rightarrow> node" where
  "markForUpdateRenderData enable enabledInHierarchy node =
     (if enable \<and> enabledInHierarchy then
        set_flag (UPDATE_RENDER_DATA OR POST_UPDATE_RENDER_DATA) node
      else if \<not> enable then
        clear_flag (UPDATE_RENDER_DATA OR POST_UPDATE_RENDER_DATA) node
      else node)"

definition markForRender :: "bool \<Rightarrow> bool \<Rightarrow> node \<Rightarrow> node" where
  "markForRender enable enabledInHierarchy node =
     (if enable \<and> enabledInHierarchy then
        set_flag (RENDER OR UPDATE_RENDER_DATA OR POST_RENDER OR POST_UPDATE_RENDER_DATA) node
      else if \<not> enable then
        clear_flag (RENDER OR POST_RENDER) node
      else node)"

definition disableRender :: "node \<Rightarrow> node" where
  "disableRender node =
     clear_flag (RENDER OR UPDATE_RENDER_DATA OR POST_RENDER OR POST_UPDATE_RENDER_DATA) node"

definition example_walker :: walker where
  "example_walker = \<lparr>worldMatDirty = 0, parentOpacityDirty = 0, parentOpacity = 1\<rparr>"

definition example_node :: "nat \<Rightarrow> nat option \<Rightarrow> int \<Rightarrow> component option \<Rightarrow> node list \<Rightarrow> node" where
  "example_node i p f c cs =
     Node \<lparr>nid = i, parent = p, renderFlag = f, opacity = 255, customInvisibleFlag = False,
           activeInHierarchy = True, groupIndex = 0, cullingMask = 0,
           color_val = \<lparr>val_rgb = 7, val_a = 255\<rparr>, renderComponent = c\<rparr> cs"

definition worldDirtyFlag :: "walker \<Rightarrow> int" where
  "worldDirtyFlag w =
     (if worldMatDirty w \<noteq> 0 then WORLD_TRANSFORM else 0) OR
     (if parentOpacityDirty w \<noteq> 0 then COLOR else 0)"

definition child_skipped :: "node \<Rightarrow> bool" where
  "child_skipped c = (\<not> activeInHierarchy (dat c) \<or> opacity (dat c) = 0)"

definition child_at_dispatch :: "int \<Rightarrow> real \<Rightarrow> int \<Rightarrow> node \<Rightarrow> node" where
  "child_at_dispatch cm op dirty c =
     upd (\<lambda>d. d\<lparr>renderFlag := renderFlag d OR dirty,
                 cullingMask := (if groupIndex d = 0 then cm else js_shl1 (groupIndex d)),
                 color_val := (color_val d)\<lparr>val_a := opacity d * op\<rparr>\<rparr>) c"

definition dirty_walker :: walker where
  "dirty_walker = \<lparr>worldMatDirty = 1, parentOpacityDirty = 1, parentOpacity = 1\<rparr>"

definition example_parent :: "node list \<Rightarrow> node" where
  "example_parent cs = example_node 1 None CHILDREN None cs"

definition inactive_child :: node where
  "inactive_child = upd (\<lambda>d. d\<lparr>activeInHierarchy := False\<rparr>) (example_node 2 (Some 1) RENDER None [])"

definition half_visible_child :: node where
  "half_visible_child = upd (\<lambda>d. d\<lparr>opacity := 51\<rparr>) (example_node 2 (Some 1) COLOR None [])"

definition walking_state :: "walker \<Rightarrow> state" where
  "walking_state w = module_state\<lparr>walker := Some w\<rparr>"

definition faded_parent :: "node list \<Rightarrow> node" where
  "faded_parent cs = upd (\<lambda>d. d\<lparr>opacity := 128\<rparr>) (example_parent cs)"

definition tinted_child :: node where
  "tinted_child = upd (\<lambda>d. d\<lparr>opacity := 51\<rparr>) (example_node 2 (Some 1) COLOR (Some PlainComp) [])"

definition keeps_traversal_state :: "cont \<Rightarrow> bool" where
  "keeps_traversal_state f =
     (\<forall>node s node' s'. f node s = Some (Inr (node', s')) \<longrightarrow>
        walker s' = walker s \<and> g_cullingMask s' = g_cullingMask s)"

definition same_core :: "state \<Rightarrow> state \<Rightarrow> bool" where
  "same_core s s' =
     (walker s' = walker s \<and> g_cullingMask s' = g_cullingMask s \<and>
      flows s' = flows s \<and> flow_heap s' = flow_heap s)"

definition example_chain_state :: "int \<Rightarrow> walker \<Rightarrow> state" where
  "example_chain_state m w = (walking_state w)\<lparr>flow_heap := snd (getFlow m module_heap)\<rparr>"

definition busy_node :: node where
  "busy_node = example_node 4 (Some 1) (WORLD_TRANSFORM OR OPACITY OR CHILDREN) None [inactive_child]"

definition init_flows :: "int \<Rightarrow> nat option" where
  "init_flows k = (if 0 \<le> k \<and> k < FINAL then Some (nat k) else None)"

definition init_heap :: heap where
  "init_heap = module_heap @ replicate 1023 new_RenderFlow"

definition good_heap :: "heap \<Rightarrow> bool" where
  "good_heap h =
     (h \<noteq> [] \<and> h ! EMPTY_FLOW = \<lparr>flow_func = F_doNothing, flow_next = Some EMPTY_FLOW\<rparr> \<and>
      (\<forall>a<length h. \<forall>b. flow_next (h ! a) = Some b \<longrightarrow>
         b < length h \<and> flow_func (h ! b) \<noteq> F_init))"

definition wf_cache :: "state \<Rightarrow> bool" where
  "wf_cache s =
     (good_heap (flow_heap s) \<and>
      (\<forall>k a. flows s k = Some a \<longrightarrow> 0 \<le> k \<and> k < FINAL \<and> a < length (flow_heap s)))"

definition compiled :: "state \<Rightarrow> int \<Rightarrow> nat \<Rightarrow> bool" where
  "compiled s k a =
     (flows s k = Some a \<and> a < length (flow_heap s) \<and> flow_func (flow_heap s ! a) \<noteq> F_init)"

definition cache_extends :: "state \<Rightarrow> state \<Rightarrow> bool" where
  "cache_extends s s' =
     ((\<exists>h. flow_heap s' = flow_heap s @ h) \<and> (\<forall>k a. compiled s k a \<longrightarrow> flows s' k = Some a))"

definition live_ref :: "heap \<Rightarrow> nat option \<Rightarrow> bool" where
  "live_ref h flow = (\<forall>r. flow = Some r \<longrightarrow> r < length h \<and> flow_func (h ! r) \<noteq> F_init)"

definition cache_safe :: "cont \<Rightarrow> bool" where
  "cache_safe f =
     (\<forall>node s node' s'. wf_cache s \<longrightarrow> f node s = Some (Inr (node', s')) \<longrightarrow>
        wf_cache s' \<and> cache_extends s s')"

definition entry_ok :: "nat option \<Rightarrow> node \<Rightarrow> state \<Rightarrow> bool" where
  "entry_ok r node s =
     (\<forall>a. r = Some a \<longrightarrow> a < length (flow_heap s) \<longrightarrow> flow_func (flow_heap s ! a) = F_init \<longrightarrow>
        flows s (renderFlag (dat node)) = Some a)"

definition init_state :: "walker \<Rightarrow> state" where
  "init_state w = module_state\<lparr>walker := Some w, flows := init_flows, flow_heap := init_heap\<rparr>"

definition trace_of :: "(node \<times> state) res \<Rightarrow> (error + event list) option" where
  "trace_of r = map_option (map_sum id (\<lambda>(node, s). trace s)) r"

definition three_level_tree :: "int \<Rightarrow> node" where
  "three_level_tree child_flag =
     example_node 1 None (WORLD_TRANSFORM OR CHILDREN) None
       [example_node 2 (Some 1) child_flag None
          [example_node 3 (Some 2) RENDER (Some PlainComp) []]]"

datatype sink_obs = Commit nat assembler | Push nat | Pop "nat option"

fun sink_view :: "event list \<Rightarrow> sink_obs list" where
  "sink_view [] = []"
| "sink_view (CommitComp c a cm # es) = Commit c a # sink_view es"
| "sink_view (PushMask a # es) = Push a # sink_view es"
| "sink_view (PopMask x # es) = Pop x # sink_view es"
| "sink_view (e # es) = sink_view es"

fun stencil_or_content :: "sink_obs \<Rightarrow> bool" where
  "stencil_or_content (Commit c a) = (a = ComponentAssembler)"
| "stencil_or_content (Push a) = True"
| "stencil_or_content (Pop x) = True"

definition sink_trace_of :: "(node \<times> state) res \<Rightarrow> (error + sink_obs list) option" where
  "sink_trace_of r = map_option (map_sum id sink_view) (trace_of r)"

definition mask_flags :: int where
  "mask_flags = RENDER OR UPDATE_RENDER_DATA OR POST_RENDER OR POST_UPDATE_RENDER_DATA"

definition renderable_mask :: "mask_comp \<Rightarrow> bool" where
  "renderable_mask m = (if mtype m = IMAGE_STENCIL then spriteFrame m else frontMaterial m)"

definition rect_mask :: mask_comp where
  "rect_mask = \<lparr>mtype = RECT, spriteFrame = False, frontMaterial = True,
     endMaterial = True, material = None, graphics = None, renderData = False\<rparr>"

definition image_mask :: mask_comp where
  "image_mask = \<lparr>mtype = IMAGE_STENCIL, spriteFrame = True, frontMaterial = True,
     endMaterial = True, material = None, graphics = None, renderData = False\<rparr>"

definition nested_mask_scene :: node where
  "nested_mask_scene =
     example_node 1 None CHILDREN None
       [example_node 2 (Some 1) (mask_flags OR CHILDREN) (Some (MaskComp rect_mask))
          [example_node 3 (Some 2) (mask_flags OR CHILDREN) (Some (MaskComp image_mask))
             [example_node 4 (Some 3) RENDER (Some PlainComp) []]]]"

definition plain_child :: node where
  "plain_child = example_node 3 (Some 1) 0 None []"

definition frameless_mask :: mask_comp where
  "frameless_mask = \<lparr>mtype = IMAGE_STENCIL, spriteFrame = False, frontMaterial = True,
     endMaterial = True, material = None, graphics = None, renderData = True\<rparr>"

definition frameless_mask_scene :: node where
  "frameless_mask_scene =
     example_node 1 None CHILDREN None
       [example_node 2 (Some 1) (mask_flags OR CHILDREN) (Some (MaskComp rect_mask))
          [example_node 3 (Some 2) (mask_flags OR CHILDREN) (Some (MaskComp frameless_mask))
             [example_node 4 (Some 3) RENDER (Some PlainComp) []]]]"

section \<open>Properties of the chain builder\<close>

lemmas flag_defs =
  DONOTHING_def LOCAL_TRANSFORM_def WORLD_TRANSFORM_def UPDATE_RENDER_DATA_def
  OPACITY_def COLOR_def RENDER_def CUSTOM_IA_RENDER_def CHILDREN_def
  POST_UPDATE_RENDER_DATA_def POST_RENDER_def FINAL_def

lemma chain_from_append: "chain_from h r fs \<Longrightarrow> chain_from (h @ h') r fs"
  by (induction fs arbitrary: r) (auto simp: nth_append split: option.splits)

lemma small_cases: "k < 10 \<Longrightarrow> k \<in> {0, 1, 2, 3, 4, 5, 6, 7, 8, 9::nat}"
  by auto

lemma stage_names_nth:
  "stage_names ! 0 = F_localTransform"
  "stage_names ! 1 = F_worldTransform"
  "stage_names ! 2 = F_updateRenderData"
  "stage_names ! 3 = F_opacity"
  "stage_names ! 4 = F_color"
  "stage_names ! 5 = F_render"
  "stage_names ! 6 = F_customIARender"
  "stage_names ! 7 = F_children"
  "stage_names ! 8 = F_postUpdateRenderData"
  "stage_names ! 9 = F_postRender"
  by (simp_all add: stage_names_def)

lemma createFlow_cases:
  "createFlow (2 ^ 0) nxt h = (length h, h @ [\<lparr>flow_func = F_localTransform, flow_next = Some (ref_or_empty nxt)\<rparr>])"
  "createFlow (2 ^ 1) nxt h = (length h, h @ [\<lparr>flow_func = F_worldTransform, flow_next = Some (ref_or_empty nxt)\<rparr>])"
  "createFlow (2 ^ 2) nxt h = (length h, h @ [\<lparr>flow_func = F_updateRenderData, flow_next = Some (ref_or_empty nxt)\<rparr>])"
  "createFlow (2 ^ 3) nxt h = (length h, h @ [\<lparr>flow_func = F_opacity, flow_next = Some (ref_or_empty nxt)\<rparr>])"
  "createFlow (2 ^ 4) nxt h = (length h, h @ [\<lparr>flow_func = F_color, flow_next = Some (ref_or_empty nxt)\<rparr>])"
  "createFlow (2 ^ 5) nxt h = (length h, h @ [\<lparr>flow_func = F_render, flow_next = Some (ref_or_empty nxt)\<rparr>])"
  "createFlow (2 ^ 6) nxt h = (length h, h @ [\<lparr>flow_func = F_customIARender, flow_next = Some (ref_or_empty nxt)\<rparr>])"
  "createFlow (2 ^ 7) nxt h = (length h, h @ [\<lparr>flow_func = F_children, flow_next = Some (ref_or_empty nxt)\<rparr>])"
  "createFlow (2 ^ 8) nxt h = (length h, h @ [\<lparr>flow_func = F_postUpdateRenderData, flow_next = Some (ref_or_empty nxt)\<rparr>])"
  "createFlow (2 ^ 9) nxt h = (length h, h @ [\<lparr>flow_func = F_postRender, flow_next = Some (ref_or_empty nxt)\<rparr>])"
  by (cases nxt; simp add: createFlow_def flag_defs new_RenderFlow_def ref_or_empty_def)+

lemma createFlow_pow:
  "k < 10 \<Longrightarrow> createFlow (2 ^ k) nxt h =
     (length h, h @ [\<lparr>flow_func = stage_names ! k, flow_next = Some (ref_or_empty nxt)\<rparr>])"
  by (drule small_cases) (auto simp only: stage_names_nth createFlow_cases)

lemma and_pow_bit: "((2::int) ^ k AND m \<noteq> 0) = bit m k"
  by (simp only: and.commute [of "2 ^ k" m] and_exp_eq_0_iff_not_bit not_not)

lemma stages_below_Suc:
  "stages_below (Suc k) m =
     stages_below k m @ (if 2 ^ k AND m \<noteq> 0 then [stage_names ! k] else [])"
  by (simp add: stages_below_def and_pow_bit)

lemma getFlow_loop_zero: "getFlow_loop m 0 flow h = (flow, h)"
  by (simp add: getFlow_loop.simps)

lemma getFlow_loop_one:
  "getFlow_loop m 1 flow h =
     (if 1 AND m \<noteq> 0 then (Some (fst (createFlow 1 flow h)), snd (createFlow 1 flow h))
      else (flow, h))"
  by (subst getFlow_loop.simps) (simp add: getFlow_loop_zero split: prod.splits)

lemma getFlow_loop_Suc:
  "getFlow_loop m (2 ^ Suc k) flow h =
     (if 2 ^ Suc k AND m \<noteq> 0 then
        getFlow_loop m (2 ^ k) (Some (fst (createFlow (2 ^ Suc k) flow h)))
          (snd (createFlow (2 ^ Suc k) flow h))
      else getFlow_loop m (2 ^ k) flow h)"
proof -
  have "drop_bit 1 ((2::int) ^ Suc k) = 2 ^ k"
    by (simp add: drop_bit_eq_div)
  moreover have "(2::int) ^ Suc k > 0" by simp
  ultimately show ?thesis
    by (subst getFlow_loop.simps) (simp split: prod.splits)
qed

lemma getFlow_loop_chain:
  assumes "k < 10" "h \<noteq> []" "chain_from h (ref_or_empty flow) fs" "flow = None \<longleftrightarrow> fs = []"
  shows "\<exists>flow' h'. getFlow_loop m (2 ^ k) flow h = (flow', h @ h') \<and>
           chain_from (h @ h') (ref_or_empty flow') (stages_below (Suc k) m @ fs) \<and>
           (flow' = None \<longleftrightarrow> stages_below (Suc k) m @ fs = [])"
  using assms
proof (induction k arbitrary: h flow fs)
  case 0
  let ?fl = "\<lparr>flow_func = F_localTransform, flow_next = Some (ref_or_empty flow)\<rparr>"
  have cf: "createFlow 1 flow h = (length h, h @ [?fl])"
    using createFlow_cases(1) [of flow h] by simp
  have sb: "stages_below (Suc 0) m = (if 1 AND m \<noteq> 0 then [F_localTransform] else [])"
    using stages_below_Suc [of 0 m] by (simp add: stages_below_def stage_names_def)
  show ?case
  proof (cases "1 AND m \<noteq> (0::int)")
    case True
    have "chain_from (h @ [?fl]) (length h) (F_localTransform # fs)"
      using 0 by (simp add: EMPTY_FLOW_def chain_from_append)
    then show ?thesis
      using True by (simp add: getFlow_loop_one cf sb ref_or_empty_def)
  next
    case False
    then show ?thesis using 0 by (simp add: getFlow_loop_one sb)
  qed
next
  case (Suc k)
  then have k: "k < 10" and sk: "Suc k < 10" by simp_all
  show ?case
  proof (cases "2 ^ Suc k AND m \<noteq> (0::int)")
    case True
    let ?fl = "\<lparr>flow_func = stage_names ! Suc k, flow_next = Some (ref_or_empty flow)\<rparr>"
    have step: "getFlow_loop m (2 ^ Suc k) flow h =
        getFlow_loop m (2 ^ k) (Some (length h)) (h @ [?fl])"
      by (subst getFlow_loop_Suc, subst if_P [OF True])
         (simp only: createFlow_pow [OF sk] fst_conv snd_conv)
    have ch: "chain_from (h @ [?fl]) (ref_or_empty (Some (length h))) (stage_names ! Suc k # fs)"
      using Suc.prems by (simp add: EMPTY_FLOW_def chain_from_append ref_or_empty_def)
    have "\<exists>flow' h'. getFlow_loop m (2 ^ k) (Some (length h)) (h @ [?fl]) = (flow', (h @ [?fl]) @ h') \<and>
           chain_from ((h @ [?fl]) @ h') (ref_or_empty flow')
             (stages_below (Suc k) m @ stage_names ! Suc k # fs) \<and>
           (flow' = None \<longleftrightarrow> stages_below (Suc k) m @ stage_names ! Suc k # fs = [])"
      by (rule Suc.IH [OF k _ ch]) simp_all
    then obtain flow' h' where
      r: "getFlow_loop m (2 ^ k) (Some (length h)) ((h @ [?fl])) = (flow', (h @ [?fl]) @ h')"
         "chain_from ((h @ [?fl]) @ h') (ref_or_empty flow')
            (stages_below (Suc k) m @ stage_names ! Suc k # fs)"
         "flow' = None \<longleftrightarrow> stages_below (Suc k) m @ stage_names ! Suc k # fs = []"
      by blast
    have sb: "stages_below (Suc (Suc k)) m = stages_below (Suc k) m @ [stage_names ! Suc k]"
      by (subst stages_below_Suc) (simp only: if_P [OF True])
    have "getFlow_loop m (2 ^ Suc k) flow h = (flow', h @ ([?fl] @ h'))"
      using r(1) by (simp only: step append_assoc)
    moreover have "chain_from (h @ ([?fl] @ h')) (ref_or_empty flow')
        (stages_below (Suc (Suc k)) m @ fs)"
      using r(2) by (simp only: sb append_assoc append_Cons append_Nil)
    moreover have "flow' = None \<longleftrightarrow> stages_below (Suc (Suc k)) m @ fs = []"
      using r(3) by (simp add: sb)
    ultimately show ?thesis by blast
  next
    case False
    have step: "getFlow_loop m (2 ^ Suc k) flow h = getFlow_loop m (2 ^ k) flow h"
      by (subst getFlow_loop_Suc) (simp only: if_not_P [OF False])
    have sb: "stages_below (Suc (Suc k)) m = stages_below (Suc k) m"
      by (subst stages_below_Suc) (simp only: if_not_P [OF False] append_Nil2)
    from Suc.IH [OF k Suc.prems(2) Suc.prems(3) Suc.prems(4)] show ?thesis
      by (simp only: step sb)
  qed
qed

lemma getFlow_chain:
  assumes "0 \<le> m" "m < FINAL" "h \<noteq> []"
  shows "\<exists>flow' h'. getFlow m h = (flow', h @ h') \<and>
           chain_from (h @ h') (ref_or_empty flow') (expected_stages m) \<and>
           (flow' = None \<longleftrightarrow> expected_stages m = [])"
proof -
  have "take_bit 10 m = m" using assms(1,2)
    by (simp add: take_bit_int_eq_self FINAL_def)
  then have "\<not> bit m 10"
    by (metis bit_take_bit_iff less_irrefl)
  then have nb: "(2::int) ^ 10 AND m = 0"
    by (simp only: and.commute [of "2 ^ 10" m] and_exp_eq_0_iff_not_bit not_False_eq_True)
  have "getFlow m h = getFlow_loop m (2 ^ 9) None h"
    unfolding getFlow_def FINAL_def
    using getFlow_loop_Suc [of m 9 None h] nb by simp
  moreover have "stages_below 10 m = expected_stages m"
    by (simp add: stages_below_def expected_stages_def)
  ultimately show ?thesis
    using getFlow_loop_chain [of 9 h None "[]" m] assms(3)
    by (simp add: ref_or_empty_def)
qed


lemma expected_stages_nonempty:
  assumes "0 < m" "m < FINAL"
  shows "expected_stages m \<noteq> []"
proof
  assume "expected_stages m = []"
  then have nb: "\<forall>k<10. \<not> bit m k"
    by (auto simp: expected_stages_def filter_empty_conv)
  have "take_bit 10 m = 0"
    by (rule bit_eqI) (use nb in \<open>simp add: bit_take_bit_iff\<close>)
  moreover have "take_bit 10 m = m" using assms
    by (simp add: take_bit_int_eq_self FINAL_def)
  ultimately show False using assms(1) by simp
qed

lemma nth_append_heap: "h \<noteq> [] \<Longrightarrow> (h @ h') ! EMPTY_FLOW = h ! EMPTY_FLOW"
  by (simp add: nth_append EMPTY_FLOW_def)

text \<open>
  Claim C1. For every mask \<open>m\<close> with \<open>0 < m < FINAL\<close>, on a heap that holds the sentinel,
  \<open>getFlow m\<close> returns a non-null reference whose chain has exactly one stage for each
  stage bit set in \<open>m\<close>, in ascending bit order, and ends at \<open>EMPTY_FLOW\<close>, the no-op
  object whose \<open>_next\<close> is itself. The objects that were on the heap are left as they were.
\<close>

theorem getFlow_ascending_chain:
  assumes "0 < m" and "m < FINAL" and "h \<noteq> []"
    and "h ! EMPTY_FLOW = \<lparr>flow_func = F_doNothing, flow_next = Some EMPTY_FLOW\<rparr>"
  shows "\<exists>r h'. getFlow m h = (Some r, h @ h') \<and>
           chain_from (h @ h') r (expected_stages m) \<and>
           expected_stages m \<noteq> [] \<and>
           (h @ h') ! EMPTY_FLOW = \<lparr>flow_func = F_doNothing, flow_next = Some EMPTY_FLOW\<rparr>"
proof -
  from assms(1) have "0 \<le> m" by simp
  from getFlow_chain [OF this assms(2,3)] obtain flow' h' where
    g: "getFlow m h = (flow', h @ h')"
       "chain_from (h @ h') (ref_or_empty flow') (expected_stages m)"
       "flow' = None \<longleftrightarrow> expected_stages m = []"
    by blast
  have ne: "expected_stages m \<noteq> []" by (rule expected_stages_nonempty [OF assms(1,2)])
  with g(3) obtain r where r: "flow' = Some r" by (cases flow') auto
  have "(h @ h') ! EMPTY_FLOW = \<lparr>flow_func = F_doNothing, flow_next = Some EMPTY_FLOW\<rparr>"
    using assms(3,4) by (simp add: nth_append_heap)
  with g r ne show ?thesis by (simp add: ref_or_empty_def)
qed

lemma module_heap_eq: "module_heap = [\<lparr>flow_func = F_doNothing, flow_next = Some EMPTY_FLOW\<rparr>]"
  by (simp add: module_heap_def new_RenderFlow_def EMPTY_FLOW_def)

lemma expected_160: "expected_stages 160 = [F_render, F_children]"
  by (simp add: expected_stages_def stage_names_def upt_conv_Cons bit_numeral_simps)

text \<open>The mask \<open>RENDER | CHILDREN\<close> on the heap of the freshly loaded module.\<close>

theorem getFlow_ascending_chain_witness:
  "(0::int) < 160 \<and> 160 < FINAL \<and> module_heap \<noteq> [] \<and>
   module_heap ! EMPTY_FLOW = \<lparr>flow_func = F_doNothing, flow_next = Some EMPTY_FLOW\<rparr> \<and>
   (\<exists>r h'. getFlow 160 module_heap = (Some r, module_heap @ h') \<and>
      chain_from (module_heap @ h') r [F_render, F_children] \<and>
      (module_heap @ h') ! EMPTY_FLOW = \<lparr>flow_func = F_doNothing, flow_next = Some EMPTY_FLOW\<rparr>)"
proof -
  have a: "(0::int) < 160" "160 < FINAL" "module_heap \<noteq> []"
    "module_heap ! EMPTY_FLOW = \<lparr>flow_func = F_doNothing, flow_next = Some EMPTY_FLOW\<rparr>"
    by (simp_all add: FINAL_def module_heap_eq EMPTY_FLOW_def)
  show ?thesis
    using a getFlow_ascending_chain [OF a] by (simp only: expected_160) blast
qed

lemma getFlow_loop_cong:
  "(\<forall>j\<le>k. bit m j = bit m' j) \<Longrightarrow>
     getFlow_loop m (2 ^ k) flow h = getFlow_loop m' (2 ^ k) flow h"
proof (induction k arbitrary: flow h)
  case 0
  then have "bit m 0 = bit m' 0" by simp
  then have "(1 AND m \<noteq> 0) = (1 AND m' \<noteq> 0)"
    using and_pow_bit [of 0 m] and_pow_bit [of 0 m'] by simp
  then show ?case by (simp add: getFlow_loop_one)
next
  case (Suc k)
  have b: "(2 ^ Suc k AND m \<noteq> 0) = (2 ^ Suc k AND m' \<noteq> 0)"
    using Suc.prems by (simp only: and_pow_bit)
  have ih: "\<And>flow h. getFlow_loop m (2 ^ k) flow h = getFlow_loop m' (2 ^ k) flow h"
    using Suc.prems by (intro Suc.IH) simp
  show ?case
    by (simp only: getFlow_loop_Suc [of m] getFlow_loop_Suc [of m'] b ih)
qed

lemma getFlow_cong:
  "(\<forall>j\<le>10. bit m j = bit m' j) \<Longrightarrow> getFlow m h = getFlow m' h"
  using getFlow_loop_cong [of 10 m m' None h] by (simp add: getFlow_def FINAL_def)

text \<open>
  Claim C5, as amended. \<open>getFlow m\<close> depends on the bits 0..10 of \<open>m\<close> only: bits above the
  sentinel bit are ignored. When the sentinel bit itself is clear, \<open>getFlow m\<close> is
  \<open>getFlow\<close> of \<open>m\<close> restricted to the bits 0..9.
\<close>

theorem getFlow_ignores_bits_above_FINAL:
  "getFlow m h = getFlow (m AND (2 * FINAL - 1)) h \<and>
   (m AND FINAL = 0 \<longrightarrow> getFlow m h = getFlow (m AND (FINAL - 1)) h)"
proof
  have "2 * FINAL - 1 = (mask 11 :: int)" by (simp add: FINAL_def mask_eq_exp_minus_1)
  then have "\<forall>j\<le>10. bit m j = bit (m AND (2 * FINAL - 1)) j"
    by (simp add: bit_and_iff bit_mask_iff)
  then show "getFlow m h = getFlow (m AND (2 * FINAL - 1)) h" by (rule getFlow_cong)
next
  show "m AND FINAL = 0 \<longrightarrow> getFlow m h = getFlow (m AND (FINAL - 1)) h"
  proof
    assume "m AND FINAL = 0"
    then have nb: "\<not> bit m 10"
      by (simp add: FINAL_def and_exp_eq_0_iff_not_bit [of m 10, symmetric])
    have "FINAL - 1 = (mask 10 :: int)" by (simp add: FINAL_def mask_eq_exp_minus_1)
    then have "\<forall>j\<le>10. bit m j = bit (m AND (FINAL - 1)) j"
      using nb by (auto simp: bit_and_iff bit_mask_iff le_less)
    then show "getFlow m h = getFlow (m AND (FINAL - 1)) h" by (rule getFlow_cong)
  qed
qed

text \<open>The mask 2053 has bits 0, 2 and 11.\<close>

theorem getFlow_ignores_bits_above_FINAL_witness:
  "(2053::int) AND FINAL = 0 \<and> getFlow 2053 module_heap = getFlow 5 module_heap"
proof -
  have a: "(2053::int) AND FINAL = 0" by (simp add: FINAL_def)
  have b: "(2053::int) AND (FINAL - 1) = 5" by (simp add: FINAL_def)
  from a getFlow_ignores_bits_above_FINAL [of 2053 module_heap]
  have "getFlow 2053 module_heap = getFlow (2053 AND (FINAL - 1)) module_heap" by blast
  then show ?thesis using a by (simp only: b simp_thms)
qed

text \<open>
  Claim C5 as stated fails at \<open>m = FINAL\<close>: the loop starts at \<open>tFlag = FINAL\<close>, so the
  sentinel bit gets an object of its own (with the constructor's \<open>init\<close> as function),
  while the mask restricted to the bits 0..9 is 0 and compiles to \<open>null\<close>.
\<close>

theorem getFlow_FINAL_bit_counterexample:
  "getFlow FINAL module_heap =
     (Some 1, module_heap @ [\<lparr>flow_func = F_init, flow_next = Some EMPTY_FLOW\<rparr>]) \<and>
   getFlow (FINAL AND (FINAL - 1)) module_heap = (None, module_heap) \<and>
   getFlow FINAL module_heap \<noteq> getFlow (FINAL AND (FINAL - 1)) module_heap"
  by (simp add: getFlow_def FINAL_def getFlow_loop.simps createFlow_def flag_defs
        module_heap_eq new_RenderFlow_def EMPTY_FLOW_def)

lemma bind_res_simps [simp]:
  "bind_res None f = None"
  "bind_res (Some (Inl e)) f = Some (Inl e)"
  "bind_res (Some (Inr x)) f = f x"
  "bind_res (ok x) f = f x"
  "bind_res (throw e) f = throw e"
  by (simp_all add: bind_res_def ok_def throw_def)

lemma bind_res_Inr:
  "bind_res m f = Some (Inr y) \<longleftrightarrow> (\<exists>x. m = Some (Inr x) \<and> f x = Some (Inr y))"
  by (auto simp: bind_res_def split: option.splits sum.splits)

lemma ok_neq [simp]:
  "ok x \<noteq> None" "ok x \<noteq> throw e" "throw e \<noteq> None" "throw e \<noteq> ok x"
  "(ok x = Some (Inr y)) = (x = y)" "throw e \<noteq> Some (Inr y)"
  "(ok x = ok y) = (x = y)"
  by (simp_all add: ok_def throw_def)

lemma dat_upd [simp]: "dat (upd f n) = f (dat n)" "children (upd f n) = children n"
  by (simp_all add: upd_def)

lemma dat_set_flag [simp]:
  "dat (set_flag b n) = (dat n)\<lparr>renderFlag := renderFlag (dat n) OR b\<rparr>"
  "children (set_flag b n) = children n"
  by (simp_all add: set_flag_def)

lemma dat_clear_flag [simp]:
  "dat (clear_flag b n) = (dat n)\<lparr>renderFlag := renderFlag (dat n) AND NOT b\<rparr>"
  "children (clear_flag b n) = children n"
  by (simp_all add: clear_flag_def)

lemma invisible_flag [simp]:
  "invisible (clear_flag b n) = invisible n" "invisible (set_flag b n) = invisible n"
  by (simp_all add: invisible_def)

lemma post_stages_without_component:
  assumes "\<not> invisible node" and "renderComponent (dat node) = None"
  shows "flow_postUpdateRenderData nxt node s = throw TypeError \<and>
         flow_postRender nxt node s = throw TypeError \<and>
         flow_render nxt node s = nxt node s \<and>
         flow_customIARender nxt node s = nxt node s \<and>
         flow_color nxt node s = nxt (clear_flag COLOR node) s \<and>
         flow_updateRenderData nxt node s = nxt (clear_flag UPDATE_RENDER_DATA node) s"
  using assms
  by (simp add: flow_postUpdateRenderData_def flow_postRender_def flow_render_def
        flow_customIARender_def flow_color_def flow_updateRenderData_def
      split: option.splits)

lemma color_stage_cases:
  assumes "\<not> invisible node"
  shows "flow_color nxt node s =
           nxt (clear_flag COLOR node)
             (case renderComponent (dat node) of
                None \<Rightarrow> s
              | Some c \<Rightarrow> snd (comp_updateColor c node s))"
    and "fst (comp_updateColor c node s) = clear_flag COLOR node"
    and "snd (comp_updateColor c node s) =
           emit (UpdateColor (nid (dat node)) (color_val (dat node))) s"
    and "renderFlag (dat (clear_flag COLOR node)) = renderFlag (dat node) AND NOT COLOR"
    and "\<not> bit (renderFlag (dat (clear_flag COLOR node))) 4"
  using assms
  by (simp_all add: flow_color_def comp_updateColor_def COLOR_def bit_and_iff bit_not_iff
        bit_exp_iff split: option.splits)

lemma flow_children_unfold:
  assumes "\<not> invisible node" and "walker s = Some w"
  shows "flow_children nxt disp node s =
     bind_res
       (children_loop disp (g_cullingMask s) (parentOpacity w * (opacity (dat node) / 255))
          (worldDirtyFlag w) (children node)
          (s\<lparr>walker := Some (w\<lparr>parentOpacity := parentOpacity w * (opacity (dat node) / 255)\<rparr>)\<rparr>))
       (\<lambda>(cs, s1).
          case walker s1 of
            None \<Rightarrow> throw TypeError
          | Some w1 \<Rightarrow>
              bind_res (nxt (Node (dat node) cs) (s1\<lparr>walker := Some (w1\<lparr>parentOpacity := parentOpacity w\<rparr>)\<rparr>))
                (\<lambda>(node, s2). ok (node, s2\<lparr>g_cullingMask := g_cullingMask s\<rparr>)))"
  unfolding flow_children_def Let_def worldDirtyFlag_def using assms by simp

lemma children_loop_Cons:
  "children_loop disp cm op dirty (c # cs) s =
     (if child_skipped c then
        bind_res (children_loop disp cm op dirty cs s) (\<lambda>(cs', s'). ok (set_flag dirty c # cs', s'))
      else
        bind_res (disp (child_at_dispatch cm op dirty c)
                    (s\<lparr>g_cullingMask := (if groupIndex (dat c) = 0 then cm else js_shl1 (groupIndex (dat c)))\<rparr>))
          (\<lambda>(c', s').
             bind_res (children_loop disp cm op dirty cs s')
               (\<lambda>(cs', s''). ok (upd (\<lambda>d. d\<lparr>color_val := color_val (dat c)\<rparr>) c' # cs', s''))))"
  by (simp add: child_skipped_def child_at_dispatch_def Let_def upd_def set_flag_def fastSetA_def)

declare children_loop.simps(2) [simp del]

lemma children_loop_skipped:
  "children_loop disp cm op dirty cs s = Some (Inr (cs', s')) \<Longrightarrow>
     length cs' = length cs \<and>
     (\<forall>i<length cs. child_skipped (cs ! i) \<longrightarrow> cs' ! i = set_flag dirty (cs ! i))"
proof (induction cs arbitrary: s cs' s')
  case Nil
  then show ?case by simp

next
  case (Cons c cs)
  show ?case
  proof (cases "child_skipped c")
    case True
    with Cons.prems obtain cs1 where
      r: "children_loop disp cm op dirty cs s = Some (Inr (cs1, s'))" and
      e: "cs' = set_flag dirty c # cs1"
      by (auto simp: children_loop_Cons bind_res_Inr)
    from Cons.IH [OF r] show ?thesis
      using True e by (auto simp: nth_Cons split: nat.splits)
  next
    case False
    with Cons.prems obtain c1 s1 cs1 where
      r: "children_loop disp cm op dirty cs s1 = Some (Inr (cs1, s'))" and
      e: "cs' = upd (\<lambda>d. d\<lparr>color_val := color_val (dat c)\<rparr>) c1 # cs1"
      by (auto simp: children_loop_Cons bind_res_Inr)
    from Cons.IH [OF r] show ?thesis
      using False e by (auto simp: nth_Cons split: nat.splits)
  qed
qed

lemma children_loop_colors:
  "children_loop disp cm op dirty cs s = Some (Inr (cs', s')) \<Longrightarrow>
     map (\<lambda>c. color_val (dat c)) cs' = map (\<lambda>c. color_val (dat c)) cs"
proof (induction cs arbitrary: s cs' s')
  case Nil
  then show ?case by simp

next
  case (Cons c cs)
  show ?case
  proof (cases "child_skipped c")
    case True
    with Cons.prems obtain cs1 where
      r: "children_loop disp cm op dirty cs s = Some (Inr (cs1, s'))" and
      e: "cs' = set_flag dirty c # cs1"
      by (auto simp: children_loop_Cons bind_res_Inr)
    from Cons.IH [OF r] show ?thesis
      using e by simp
  next
    case False
    with Cons.prems obtain c1 s1 cs1 where
      r: "children_loop disp cm op dirty cs s1 = Some (Inr (cs1, s'))" and
      e: "cs' = upd (\<lambda>d. d\<lparr>color_val := color_val (dat c)\<rparr>) c1 # cs1"
      by (auto simp: children_loop_Cons bind_res_Inr)
    from Cons.IH [OF r] show ?thesis
      using e by simp
  qed
qed

lemma children_loop_cong_disp:
  "(\<And>c t. c \<in> set cs \<Longrightarrow>
      disp' (child_at_dispatch cm op dirty c) t = disp (child_at_dispatch cm op dirty c) t) \<Longrightarrow>
   children_loop disp' cm op dirty cs s = children_loop disp cm op dirty cs s"
proof (induction cs arbitrary: s)
  case Nil
  show ?case by simp

next
  case (Cons c cs)
  have ih: "\<And>s. children_loop disp' cm op dirty cs s = children_loop disp cm op dirty cs s"
    by (rule Cons.IH) (simp add: Cons.prems)
  have hd: "\<And>t. disp' (child_at_dispatch cm op dirty c) t = disp (child_at_dispatch cm op dirty c) t"
    by (rule Cons.prems) simp
  show ?case by (simp add: children_loop_Cons ih hd)
qed

lemma children_loop_cong_visited:
  "(\<And>c t. c \<in> set cs \<Longrightarrow> \<not> child_skipped c \<Longrightarrow>
      disp' (child_at_dispatch cm op dirty c) t = disp (child_at_dispatch cm op dirty c) t) \<Longrightarrow>
   children_loop disp' cm op dirty cs s = children_loop disp cm op dirty cs s"
proof (induction cs arbitrary: s)
  case Nil
  show ?case by simp
next
  case (Cons c cs)
  have ih: "\<And>s. children_loop disp' cm op dirty cs s = children_loop disp cm op dirty cs s"
    by (rule Cons.IH) (simp add: Cons.prems)
  show ?case
  proof (cases "child_skipped c")
    case True
    then show ?thesis by (simp add: children_loop_Cons ih)
  next
    case False
    have "\<And>t. disp' (child_at_dispatch cm op dirty c) t = disp (child_at_dispatch cm op dirty c) t"
      by (rule Cons.prems) (simp_all add: False)
    with False show ?thesis by (simp add: children_loop_Cons ih)
  qed
qed

lemma flow_children_returns:
  assumes "\<not> invisible node" and "walker s = Some w"
    and "flow_children nxt disp node s = Some (Inr (node', s'))"
  shows "\<exists>cs' s1 w1 s2.
           children_loop disp (g_cullingMask s) (parentOpacity w * (opacity (dat node) / 255))
             (worldDirtyFlag w) (children node)
             (s\<lparr>walker := Some (w\<lparr>parentOpacity := parentOpacity w * (opacity (dat node) / 255)\<rparr>)\<rparr>)
             = Some (Inr (cs', s1)) \<and>
           walker s1 = Some w1 \<and>
           nxt (Node (dat node) cs') (s1\<lparr>walker := Some (w1\<lparr>parentOpacity := parentOpacity w\<rparr>)\<rparr>)
             = Some (Inr (node', s2)) \<and>
           s' = s2\<lparr>g_cullingMask := g_cullingMask s\<rparr>"
  using assms(3) unfolding flow_children_unfold [OF assms(1,2)]
  by (auto simp: bind_res_Inr split: option.splits)

text \<open>
  Claim C9. The Children stage of a visible node or-s \<open>worldDirtyFlag\<close> into the mask
  of every child before it tests whether to skip the child; \<open>worldDirtyFlag\<close> holds
  WORLD_TRANSFORM when \<open>worldMatDirty > 0\<close> and COLOR when \<open>parentOpacityDirty > 0\<close>.
  When the stage returns, the node it handed to the next stage has as many children as
  before, and every child that was skipped (inactive in the hierarchy, or of opacity 0)
  is the child it was with the forced bits or-ed into its mask and nothing else changed.
  A child that is not skipped is dispatched as \<open>child_at_dispatch\<close> prepares it, with
  the forced bits or-ed into its mask: the stage gives the same result with any other
  dispatch that agrees on the children so prepared.
\<close>

theorem forced_bits_precede_skip_test:
  assumes "\<not> invisible node" and "walker s = Some w"
    and "flow_children nxt disp node s = Some (Inr (node', s'))"
  shows "(\<exists>cs' s1 s2.
           nxt (Node (dat node) cs') s1 = Some (Inr (node', s2)) \<and>
           s' = s2\<lparr>g_cullingMask := g_cullingMask s\<rparr> \<and>
           length cs' = length (children node) \<and>
           (\<forall>i<length (children node).
              \<not> activeInHierarchy (dat (children node ! i)) \<or> opacity (dat (children node ! i)) = 0 \<longrightarrow>
              cs' ! i = set_flag (worldDirtyFlag w) (children node ! i))) \<and>
         (\<forall>disp'.
            (\<forall>c\<in>set (children node).
               activeInHierarchy (dat c) \<and> opacity (dat c) \<noteq> 0 \<longrightarrow>
               (\<forall>t. disp' (child_at_dispatch (g_cullingMask s)
                             (parentOpacity w * (opacity (dat node) / 255)) (worldDirtyFlag w) c) t =
                    disp (child_at_dispatch (g_cullingMask s)
                            (parentOpacity w * (opacity (dat node) / 255)) (worldDirtyFlag w) c) t)) \<longrightarrow>
            flow_children nxt disp' node s = flow_children nxt disp node s) \<and>
         (\<forall>c cm op. renderFlag (dat (child_at_dispatch cm op (worldDirtyFlag w) c)) =
                      renderFlag (dat c) OR worldDirtyFlag w) \<and>
         (0 < worldMatDirty w \<longrightarrow> worldDirtyFlag w AND WORLD_TRANSFORM = WORLD_TRANSFORM) \<and>
         (0 < parentOpacityDirty w \<longrightarrow> worldDirtyFlag w AND COLOR = COLOR)"
proof (intro conjI allI impI)
  from flow_children_returns [OF assms] obtain cs' s1 w1 s2 where
    l: "children_loop disp (g_cullingMask s) (parentOpacity w * (opacity (dat node) / 255))
          (worldDirtyFlag w) (children node)
          (s\<lparr>walker := Some (w\<lparr>parentOpacity := parentOpacity w * (opacity (dat node) / 255)\<rparr>)\<rparr>)
          = Some (Inr (cs', s1))"
    and n: "nxt (Node (dat node) cs') (s1\<lparr>walker := Some (w1\<lparr>parentOpacity := parentOpacity w\<rparr>)\<rparr>)
          = Some (Inr (node', s2))"
    and e: "s' = s2\<lparr>g_cullingMask := g_cullingMask s\<rparr>"
    by blast
  have k: "length cs' = length (children node) \<and>
     (\<forall>i<length (children node). child_skipped (children node ! i) \<longrightarrow>
        cs' ! i = set_flag (worldDirtyFlag w) (children node ! i))"
    by (rule children_loop_skipped [OF l])
  show "\<exists>cs' s1 s2.
           nxt (Node (dat node) cs') s1 = Some (Inr (node', s2)) \<and>
           s' = s2\<lparr>g_cullingMask := g_cullingMask s\<rparr> \<and>
           length cs' = length (children node) \<and>
           (\<forall>i<length (children node).
              \<not> activeInHierarchy (dat (children node ! i)) \<or> opacity (dat (children node ! i)) = 0 \<longrightarrow>
              cs' ! i = set_flag (worldDirtyFlag w) (children node ! i))"
    using n e k unfolding child_skipped_def by blast
next
  fix disp'
  assume a: "\<forall>c\<in>set (children node).
               activeInHierarchy (dat c) \<and> opacity (dat c) \<noteq> 0 \<longrightarrow>
               (\<forall>t. disp' (child_at_dispatch (g_cullingMask s)
                             (parentOpacity w * (opacity (dat node) / 255)) (worldDirtyFlag w) c) t =
                    disp (child_at_dispatch (g_cullingMask s)
                            (parentOpacity w * (opacity (dat node) / 255)) (worldDirtyFlag w) c) t)"
  have "\<And>t. children_loop disp' (g_cullingMask s) (parentOpacity w * (opacity (dat node) / 255))
          (worldDirtyFlag w) (children node) t =
        children_loop disp (g_cullingMask s) (parentOpacity w * (opacity (dat node) / 255))
          (worldDirtyFlag w) (children node) t"
    by (rule children_loop_cong_visited) (use a in \<open>simp add: child_skipped_def\<close>)
  then show "flow_children nxt disp' node s = flow_children nxt disp node s"
    by (simp only: flow_children_unfold [OF assms(1,2)])
next
  fix c cm op
  show "renderFlag (dat (child_at_dispatch cm op (worldDirtyFlag w) c)) =
          renderFlag (dat c) OR worldDirtyFlag w"
    by (simp add: child_at_dispatch_def)
next
  assume "0 < worldMatDirty w"
  then show "worldDirtyFlag w AND WORLD_TRANSFORM = WORLD_TRANSFORM"
    by (simp add: worldDirtyFlag_def WORLD_TRANSFORM_def COLOR_def)
next
  assume "0 < parentOpacityDirty w"
  then show "worldDirtyFlag w AND COLOR = COLOR"
    by (simp add: worldDirtyFlag_def WORLD_TRANSFORM_def COLOR_def)
qed

lemma example_simps:
  "\<not> invisible (example_parent cs)"
  "children (example_parent cs) = cs"
  "walker (walking_state w) = Some w"
  by (simp_all add: invisible_def example_parent_def example_node_def walking_state_def)

lemma mixed_run:
  "flow_children flow_doNothing flow_doNothing (example_parent [inactive_child, plain_child])
     (walking_state dirty_walker) =
   Some (Inr (example_parent [set_flag (WORLD_TRANSFORM OR COLOR) inactive_child,
                              set_flag (WORLD_TRANSFORM OR COLOR) plain_child],
              walking_state dirty_walker))"
  by (subst flow_children_unfold [OF example_simps(1) example_simps(3)])
     (simp add: example_simps children_loop_Cons child_skipped_def inactive_child_def
        plain_child_def child_at_dispatch_def set_flag_def upd_def
        flow_doNothing_def worldDirtyFlag_def dirty_walker_def walking_state_def
        module_state_def example_parent_def example_node_def ok_def)

theorem forced_bits_precede_skip_test_witness:
  "\<not> invisible (example_parent [inactive_child, plain_child]) \<and>
   walker (walking_state dirty_walker) = Some dirty_walker \<and>
   flow_children flow_doNothing flow_doNothing (example_parent [inactive_child, plain_child])
     (walking_state dirty_walker) =
   Some (Inr (example_parent [set_flag (WORLD_TRANSFORM OR COLOR) inactive_child,
                              set_flag (WORLD_TRANSFORM OR COLOR) plain_child],
              walking_state dirty_walker)) \<and>
   \<not> activeInHierarchy (dat inactive_child) \<and>
   renderFlag (dat inactive_child) = RENDER \<and>
   renderFlag (dat (set_flag (WORLD_TRANSFORM OR COLOR) inactive_child)) =
     RENDER OR WORLD_TRANSFORM OR COLOR \<and>
   (\<exists>cs'. length cs' = 2 \<and> cs' ! 0 = set_flag (worldDirtyFlag dirty_walker) inactive_child) \<and>
   activeInHierarchy (dat plain_child) \<and> opacity (dat plain_child) \<noteq> 0 \<and>
   renderFlag (dat plain_child) = 0 \<and>
   renderFlag (dat (child_at_dispatch 0 1 (worldDirtyFlag dirty_walker) plain_child)) =
     WORLD_TRANSFORM OR COLOR \<and>
   flow_children flow_doNothing
     (\<lambda>c t. if renderFlag (dat c) = (WORLD_TRANSFORM OR COLOR) then flow_doNothing c t
            else throw TypeError)
     (example_parent [inactive_child, plain_child]) (walking_state dirty_walker) =
   Some (Inr (example_parent [set_flag (WORLD_TRANSFORM OR COLOR) inactive_child,
                              set_flag (WORLD_TRANSFORM OR COLOR) plain_child],
              walking_state dirty_walker))"
proof -
  let ?P = "example_parent [inactive_child, plain_child]"
  let ?S = "walking_state dirty_walker"
  let ?g = "\<lambda>c t. if renderFlag (dat c) = (WORLD_TRANSFORM OR COLOR) then flow_doNothing c t
            else throw TypeError"
  note h = forced_bits_precede_skip_test [OF example_simps(1) example_simps(3) mixed_run]
  have d: "worldDirtyFlag dirty_walker = WORLD_TRANSFORM OR COLOR"
    by (simp add: worldDirtyFlag_def dirty_walker_def)
  have a: "\<exists>cs'. length cs' = 2 \<and> cs' ! 0 = set_flag (worldDirtyFlag dirty_walker) inactive_child"
  proof -
    from h [THEN conjunct1] obtain cs' where
      l: "length cs' = length (children ?P)" and
      k: "\<forall>i<length (children ?P).
            \<not> activeInHierarchy (dat (children ?P ! i)) \<or> opacity (dat (children ?P ! i)) = 0 \<longrightarrow>
            cs' ! i = set_flag (worldDirtyFlag dirty_walker) (children ?P ! i)"
      by blast
    have "\<not> activeInHierarchy (dat inactive_child)" by (simp add: inactive_child_def)
    with k [rule_format, of 0]
    have "cs' ! 0 = set_flag (worldDirtyFlag dirty_walker) inactive_child"
      by (simp add: example_simps)
    moreover from l have "length cs' = 2" by (simp add: example_simps)
    ultimately show ?thesis by blast
  qed
  have b: "renderFlag (dat (child_at_dispatch 0 1 (worldDirtyFlag dirty_walker) plain_child)) =
     WORLD_TRANSFORM OR COLOR"
    using h [THEN conjunct2, THEN conjunct2, THEN conjunct1]
    by (simp add: plain_child_def example_node_def d)
  have "\<forall>c\<in>set (children ?P).
          activeInHierarchy (dat c) \<and> opacity (dat c) \<noteq> 0 \<longrightarrow>
          (\<forall>t. ?g (child_at_dispatch (g_cullingMask ?S)
                     (parentOpacity dirty_walker * (opacity (dat ?P) / 255))
                     (worldDirtyFlag dirty_walker) c) t =
               flow_doNothing (child_at_dispatch (g_cullingMask ?S)
                     (parentOpacity dirty_walker * (opacity (dat ?P) / 255))
                     (worldDirtyFlag dirty_walker) c) t)"
    by (simp add: example_simps child_at_dispatch_def inactive_child_def plain_child_def
          example_node_def d)
  then have c: "flow_children flow_doNothing ?g ?P ?S =
      flow_children flow_doNothing flow_doNothing ?P ?S"
    by (rule h [THEN conjunct2, THEN conjunct1, THEN spec, THEN mp])
  show ?thesis
    using a b c mixed_run
    by (simp add: example_simps inactive_child_def plain_child_def example_node_def)
qed

text \<open>
  Claim C7. When the Children stage of a visible node returns, every child has the stored
  colour value it had before. The stage calls the dispatch only on children prepared by
  \<open>child_at_dispatch\<close>: the stage gives the same result with any other dispatch that
  agrees on those. A prepared child has its alpha channel set to its opacity times the
  accumulated opacity \<open>parentOpacity * (node._opacity / 255)\<close>, its other colour channels
  and its opacity as stored; there is no field for an effective opacity.
\<close>

theorem child_color_restored_after_dispatch:
  assumes "\<not> invisible node" and "walker s = Some w"
  shows "(\<forall>node' s'. flow_children nxt disp node s = Some (Inr (node', s')) \<longrightarrow>
            (\<exists>cs' s1 s2.
               nxt (Node (dat node) cs') s1 = Some (Inr (node', s2)) \<and>
               s' = s2\<lparr>g_cullingMask := g_cullingMask s\<rparr> \<and>
               map (\<lambda>c. color_val (dat c)) cs' = map (\<lambda>c. color_val (dat c)) (children node))) \<and>
         ((\<forall>c\<in>set (children node). \<forall>t.
              disp' (child_at_dispatch (g_cullingMask s)
                       (parentOpacity w * (opacity (dat node) / 255)) (worldDirtyFlag w) c) t =
              disp (child_at_dispatch (g_cullingMask s)
                      (parentOpacity w * (opacity (dat node) / 255)) (worldDirtyFlag w) c) t) \<longrightarrow>
            flow_children nxt disp' node s = flow_children nxt disp node s) \<and>
         (\<forall>c cm dirty op.
            color_val (dat (child_at_dispatch cm op dirty c)) =
              (color_val (dat c))\<lparr>val_a := opacity (dat c) * op\<rparr> \<and>
            opacity (dat (child_at_dispatch cm op dirty c)) = opacity (dat c))"
proof (intro conjI allI impI)
  fix node' s'
  assume r: "flow_children nxt disp node s = Some (Inr (node', s'))"
  from flow_children_returns [OF assms r] obtain cs' s1 w1 s2 where
    l: "children_loop disp (g_cullingMask s) (parentOpacity w * (opacity (dat node) / 255))
          (worldDirtyFlag w) (children node)
          (s\<lparr>walker := Some (w\<lparr>parentOpacity := parentOpacity w * (opacity (dat node) / 255)\<rparr>)\<rparr>)
          = Some (Inr (cs', s1))"
    and n: "nxt (Node (dat node) cs') (s1\<lparr>walker := Some (w1\<lparr>parentOpacity := parentOpacity w\<rparr>)\<rparr>)
          = Some (Inr (node', s2))"
    and e: "s' = s2\<lparr>g_cullingMask := g_cullingMask s\<rparr>"
    by blast
  from children_loop_colors [OF l] n e
  show "\<exists>cs' s1 s2.
           nxt (Node (dat node) cs') s1 = Some (Inr (node', s2)) \<and>
           s' = s2\<lparr>g_cullingMask := g_cullingMask s\<rparr> \<and>
           map (\<lambda>c. color_val (dat c)) cs' = map (\<lambda>c. color_val (dat c)) (children node)"
    by blast

next
  assume a: "\<forall>c\<in>set (children node). \<forall>t.
              disp' (child_at_dispatch (g_cullingMask s)
                       (parentOpacity w * (opacity (dat node) / 255)) (worldDirtyFlag w) c) t =
              disp (child_at_dispatch (g_cullingMask s)
                      (parentOpacity w * (opacity (dat node) / 255)) (worldDirtyFlag w) c) t"
  have "\<And>t. children_loop disp' (g_cullingMask s) (parentOpacity w * (opacity (dat node) / 255))
          (worldDirtyFlag w) (children node) t =
        children_loop disp (g_cullingMask s) (parentOpacity w * (opacity (dat node) / 255))
          (worldDirtyFlag w) (children node) t"
    by (rule children_loop_cong_disp) (use a in blast)
  then show "flow_children nxt disp' node s = flow_children nxt disp node s"
    by (simp only: flow_children_unfold [OF assms])

next
  fix c cm dirty op
  show "color_val (dat (child_at_dispatch cm op dirty c)) =
          (color_val (dat c))\<lparr>val_a := opacity (dat c) * op\<rparr>"
    by (simp add: child_at_dispatch_def)

next
  fix c cm dirty op
  show "opacity (dat (child_at_dispatch cm op dirty c)) = opacity (dat c)"
    by (simp add: child_at_dispatch_def)
qed

lemma faded_simps:
  "\<not> invisible (faded_parent cs)"
  "children (faded_parent cs) = cs"
  "opacity (dat (faded_parent cs)) = 128"
  by (simp_all add: invisible_def faded_parent_def example_parent_def example_node_def)

lemma tinted_run:
  "flow_children flow_doNothing (flow_color flow_doNothing) (faded_parent [tinted_child])
     (walking_state example_walker) =
   Some (Inr (faded_parent [upd (\<lambda>d. d\<lparr>renderFlag := 0\<rparr>) tinted_child],
              emit (UpdateColor 2 \<lparr>val_rgb = 7, val_a = 128 / 5\<rparr>) (walking_state example_walker)))"
  by (subst flow_children_unfold [OF faded_simps(1) example_simps(3)])
     (simp add: faded_simps children_loop_Cons child_skipped_def tinted_child_def
        child_at_dispatch_def flow_color_def comp_updateColor_def invisible_def
        flow_doNothing_def worldDirtyFlag_def example_walker_def walking_state_def
        module_state_def faded_parent_def example_parent_def example_node_def ok_def
        emit_def upd_def clear_flag_def COLOR_def)

theorem child_color_restored_after_dispatch_witness:
  "\<not> invisible (faded_parent [tinted_child]) \<and>
   walker (walking_state example_walker) = Some example_walker \<and>
   flow_children flow_doNothing (flow_color flow_doNothing) (faded_parent [tinted_child])
     (walking_state example_walker) =
   Some (Inr (faded_parent [upd (\<lambda>d. d\<lparr>renderFlag := 0\<rparr>) tinted_child],
              emit (UpdateColor 2 \<lparr>val_rgb = 7, val_a = 128 / 5\<rparr>) (walking_state example_walker))) \<and>
   color_val (dat tinted_child) = \<lparr>val_rgb = 7, val_a = 255\<rparr> \<and>
   (\<exists>cs'. faded_parent [upd (\<lambda>d. d\<lparr>renderFlag := 0\<rparr>) tinted_child] = Node (dat (faded_parent [tinted_child])) cs' \<and>
      map (\<lambda>c. color_val (dat c)) cs' = [\<lparr>val_rgb = 7, val_a = 255\<rparr>])"
proof -
  from child_color_restored_after_dispatch [OF faded_simps(1) example_simps(3),
      where ?nxt = flow_doNothing and ?disp = "flow_color flow_doNothing"]
    tinted_run
  obtain cs' s1 s2 where
    n: "flow_doNothing (Node (dat (faded_parent [tinted_child])) cs') s1 =
          Some (Inr (faded_parent [upd (\<lambda>d. d\<lparr>renderFlag := 0\<rparr>) tinted_child], s2))"
    and m: "map (\<lambda>c. color_val (dat c)) cs' =
          map (\<lambda>c. color_val (dat c)) (children (faded_parent [tinted_child]))"
    by blast
  from n have "faded_parent [upd (\<lambda>d. d\<lparr>renderFlag := 0\<rparr>) tinted_child] =
      Node (dat (faded_parent [tinted_child])) cs'"
    by (simp add: flow_doNothing_def)
  moreover from m have "map (\<lambda>c. color_val (dat c)) cs' = [\<lparr>val_rgb = 7, val_a = 255\<rparr>]"
    by (simp add: faded_simps tinted_child_def example_node_def)
  ultimately show ?thesis
    using tinted_run
    by (auto simp: faded_simps example_simps tinted_child_def example_node_def)
qed

lemma keepsI:
  "(\<And>node s node' s'. f node s = Some (Inr (node', s')) \<Longrightarrow>
      walker s' = walker s \<and> g_cullingMask s' = g_cullingMask s) \<Longrightarrow> keeps_traversal_state f"
  by (simp add: keeps_traversal_state_def)

lemma keepsD:
  "keeps_traversal_state f \<Longrightarrow> f node s = Some (Inr (node', s')) \<Longrightarrow>
     walker s' = walker s \<and> g_cullingMask s' = g_cullingMask s"
  by (simp add: keeps_traversal_state_def)

lemma emit_fields [simp]:
  "walker (emit e s) = walker s" "g_cullingMask (emit e s) = g_cullingMask s"
  "flows (emit e s) = flows s" "flow_heap (emit e s) = flow_heap s"
  "maskStack (emit e s) = maskStack s" "graphicsPool (emit e s) = graphicsPool s"
  "graphicsCount (emit e s) = graphicsCount s" "trace (emit e s) = trace s @ [e]"
  by (simp_all add: emit_def)

lemma pushMask_fields [simp]:
  "walker (pushMask m s) = walker s" "g_cullingMask (pushMask m s) = g_cullingMask s"
  "flows (pushMask m s) = flows s" "flow_heap (pushMask m s) = flow_heap s"
  by (simp_all add: pushMask_def)

lemma popMask_fields [simp]:
  "walker (popMask s) = walker s" "g_cullingMask (popMask s) = g_cullingMask s"
  "flows (popMask s) = flows s" "flow_heap (popMask s) = flow_heap s"
  by (simp_all add: popMask_def split: list.splits)

lemma getGraphics_fields [simp]:
  "walker (snd (getGraphics s)) = walker s" "g_cullingMask (snd (getGraphics s)) = g_cullingMask s"
  "flows (snd (getGraphics s)) = flows s" "flow_heap (snd (getGraphics s)) = flow_heap s"
  by (simp_all add: getGraphics_def)

lemma same_core_refl [simp]: "same_core s s"
  by (simp add: same_core_def)

lemma maskFront_updateRenderData_core:
  "maskFront_updateRenderData m node s = Some (Inr (node', s')) \<Longrightarrow> same_core s s'"
  by (auto simp: maskFront_updateRenderData_def Let_def same_core_def ok_def throw_def
           split: if_splits option.splits prod.splits)
     (metis getGraphics_fields snd_conv)+

lemma maskEnd_updateRenderData_core:
  "maskEnd_updateRenderData m node s = Some (Inr (node', s')) \<Longrightarrow> same_core s s'"
  by (auto simp: maskEnd_updateRenderData_def Let_def same_core_def ok_def throw_def
           split: if_splits option.splits)

lemma maskFront_fillBuffers_core:
  "maskFront_fillBuffers m node s = Some (Inr (node', s')) \<Longrightarrow> same_core s s'"
  by (auto simp: maskFront_fillBuffers_def Let_def same_core_def bind_res_Inr ok_def throw_def
           split: if_splits option.splits)

lemma maskEnd_fillBuffers_core:
  "maskEnd_fillBuffers m node s = Some (Inr (node', s')) \<Longrightarrow> same_core s s'"
  by (auto simp: maskEnd_fillBuffers_def Let_def same_core_def bind_res_Inr ok_def throw_def
           split: if_splits option.splits)

lemma assembler_updateRenderData_core:
  "assembler_updateRenderData a c node s = Some (Inr (node', s')) \<Longrightarrow> same_core s s'"
  by (auto simp: assembler_updateRenderData_def ok_def throw_def
           dest: maskFront_updateRenderData_core maskEnd_updateRenderData_core
           split: assembler.splits component.splits)
     (simp add: same_core_def)

lemma assembler_fillBuffers_core:
  "assembler_fillBuffers a c node s = Some (Inr (node', s')) \<Longrightarrow> same_core s s'"
  by (auto simp: assembler_fillBuffers_def ok_def throw_def
           dest: maskFront_fillBuffers_core maskEnd_fillBuffers_core
           split: assembler.splits component.splits)
     (simp add: same_core_def)

lemma commitComp_core:
  "commitComp c a cm node s = Some (Inr (node', s')) \<Longrightarrow> same_core s s'"
  by (auto simp: commitComp_def throw_def same_core_def
           dest!: assembler_fillBuffers_core split: option.splits)

lemma commitIA_core:
  "commitIA c a cm node s = Some (Inr (node', s')) \<Longrightarrow> same_core s s'"
  by (auto simp: commitIA_def throw_def ok_def same_core_def split: option.splits)

lemma keeps_doNothing: "keeps_traversal_state flow_doNothing"
  by (rule keepsI) (simp add: flow_doNothing_def)

lemma keeps_localTransform:
  "keeps_traversal_state nxt \<Longrightarrow> keeps_traversal_state (flow_localTransform nxt)"
  by (rule keepsI) (auto simp: flow_localTransform_def Let_def dest!: keepsD)

lemma walker_inc_dec [simp]:
  "w\<lparr>worldMatDirty := worldMatDirty w + 1 - 1\<rparr> = w"
  "w\<lparr>parentOpacityDirty := parentOpacityDirty w + 1 - 1\<rparr> = w"
  "w\<lparr>parentOpacity := parentOpacity w\<rparr> = w"
  by simp_all

lemma keeps_worldTransform:
  assumes "keeps_traversal_state nxt"
  shows "keeps_traversal_state (flow_worldTransform nxt)"
proof (rule keepsI)
  fix node s node' s'
  assume r: "flow_worldTransform nxt node s = Some (Inr (node', s'))"
  show "walker s' = walker s \<and> g_cullingMask s' = g_cullingMask s"
  proof (cases "invisible node")
    case True
    with r show ?thesis by (simp add: flow_worldTransform_def)
  next
    case False
    with r obtain w p where w: "walker s = Some w" and p: "parent (dat node) = Some p"
      by (auto simp: flow_worldTransform_def throw_def split: option.splits)
    let ?s1 = "emit (MulMat (nid (dat node)) p)
                 (s\<lparr>walker := Some (w\<lparr>worldMatDirty := worldMatDirty w + 1\<rparr>)\<rparr>)"
    from r False w p obtain n2 s2 w2 where
      k: "nxt (clear_flag WORLD_TRANSFORM node) ?s1 = Some (Inr (n2, s2))" and
      w2: "walker s2 = Some w2" and
      e: "s' = s2\<lparr>walker := Some (w2\<lparr>worldMatDirty := worldMatDirty w2 - 1\<rparr>)\<rparr>"
      by (auto simp: flow_worldTransform_def Let_def bind_res_Inr throw_def split: option.splits)
    from keepsD [OF assms k] w2 have "w2 = w\<lparr>worldMatDirty := worldMatDirty w + 1\<rparr>"
      and "g_cullingMask s2 = g_cullingMask s" by simp_all
    then show ?thesis using e w by simp
  qed
qed

lemma keeps_opacity:
  assumes "keeps_traversal_state nxt"
  shows "keeps_traversal_state (flow_opacity nxt)"
proof (rule keepsI)
  fix node s node' s'
  assume r: "flow_opacity nxt node s = Some (Inr (node', s'))"
  show "walker s' = walker s \<and> g_cullingMask s' = g_cullingMask s"
  proof (cases "invisible node")
    case True
    with r show ?thesis by (simp add: flow_opacity_def)
  next
    case False
    with r obtain w where w: "walker s = Some w"
      by (auto simp: flow_opacity_def throw_def split: option.splits)
    let ?s1 = "s\<lparr>walker := Some (w\<lparr>parentOpacityDirty := parentOpacityDirty w + 1\<rparr>)\<rparr>"
    from r False w obtain n2 s2 w2 where
      k: "nxt (clear_flag OPACITY node) ?s1 = Some (Inr (n2, s2))" and
      w2: "walker s2 = Some w2" and
      e: "s' = s2\<lparr>walker := Some (w2\<lparr>parentOpacityDirty := parentOpacityDirty w2 - 1\<rparr>)\<rparr>"
      by (auto simp: flow_opacity_def Let_def bind_res_Inr throw_def split: option.splits)
    from keepsD [OF assms k] w2 have "w2 = w\<lparr>parentOpacityDirty := parentOpacityDirty w + 1\<rparr>"
      and "g_cullingMask s2 = g_cullingMask s" by simp_all
    then show ?thesis using e w by simp
  qed
qed

lemma keeps_color:
  "keeps_traversal_state nxt \<Longrightarrow> keeps_traversal_state (flow_color nxt)"
  by (rule keepsI)
     (auto simp: flow_color_def comp_updateColor_def split: if_splits option.splits dest!: keepsD)

lemma keeps_updateRenderData:
  "keeps_traversal_state nxt \<Longrightarrow> keeps_traversal_state (flow_updateRenderData nxt)"
  by (rule keepsI)
     (auto simp: flow_updateRenderData_def bind_res_Inr throw_def same_core_def
           split: if_splits option.splits
           dest!: keepsD assembler_updateRenderData_core)

lemma keeps_render:
  "keeps_traversal_state nxt \<Longrightarrow> keeps_traversal_state (flow_render nxt)"
  by (rule keepsI)
     (auto simp: flow_render_def bind_res_Inr throw_def same_core_def
           split: if_splits option.splits dest!: keepsD commitComp_core)

lemma keeps_customIARender:
  "keeps_traversal_state nxt \<Longrightarrow> keeps_traversal_state (flow_customIARender nxt)"
  by (rule keepsI)
     (auto simp: flow_customIARender_def bind_res_Inr throw_def same_core_def
           split: if_splits option.splits dest!: keepsD commitIA_core)

lemma keeps_postUpdateRenderData:
  "keeps_traversal_state nxt \<Longrightarrow> keeps_traversal_state (flow_postUpdateRenderData nxt)"
  by (rule keepsI)
     (auto simp: flow_postUpdateRenderData_def bind_res_Inr throw_def same_core_def
           split: if_splits option.splits
           dest!: keepsD assembler_updateRenderData_core)

lemma keeps_postRender:
  "keeps_traversal_state nxt \<Longrightarrow> keeps_traversal_state (flow_postRender nxt)"
  by (rule keepsI)
     (auto simp: flow_postRender_def bind_res_Inr throw_def same_core_def
           split: if_splits option.splits dest!: keepsD commitComp_core)

lemma children_loop_walker:
  assumes "keeps_traversal_state disp"
  shows "children_loop disp cm op dirty cs s = Some (Inr (cs', s')) \<Longrightarrow> walker s' = walker s"
proof (induction cs arbitrary: s cs' s')
  case Nil
  then show ?case by simp

next
  case (Cons c cs)
  show ?case
  proof (cases "child_skipped c")
    case True
    with Cons.prems obtain cs1 where
      "children_loop disp cm op dirty cs s = Some (Inr (cs1, s'))"
      by (auto simp: children_loop_Cons bind_res_Inr)
    then show ?thesis by (rule Cons.IH)
  next
    case False
    with Cons.prems obtain c1 s1 cs1 where
      d: "disp (child_at_dispatch cm op dirty c)
            (s\<lparr>g_cullingMask := (if groupIndex (dat c) = 0 then cm else js_shl1 (groupIndex (dat c)))\<rparr>)
          = Some (Inr (c1, s1))" and
      r: "children_loop disp cm op dirty cs s1 = Some (Inr (cs1, s'))"
      by (auto simp: children_loop_Cons bind_res_Inr)
    from keepsD [OF assms d] have "walker s1 = walker s" by simp
    with Cons.IH [OF r] show ?thesis by simp
  qed
qed

lemma keeps_children:
  assumes "keeps_traversal_state nxt" and "keeps_traversal_state disp"
  shows "keeps_traversal_state (flow_children nxt disp)"
proof (rule keepsI)
  fix node s node' s'
  assume r: "flow_children nxt disp node s = Some (Inr (node', s'))"
  show "walker s' = walker s \<and> g_cullingMask s' = g_cullingMask s"
  proof (cases "invisible node")
    case True
    with r show ?thesis by (simp add: flow_children_def)
  next
    case False
    with r obtain w where w: "walker s = Some w"
      by (auto simp: flow_children_def Let_def throw_def split: option.splits)
    from flow_children_returns [OF False w r] obtain cs' s1 w1 s2 where
      l: "children_loop disp (g_cullingMask s) (parentOpacity w * (opacity (dat node) / 255))
            (worldDirtyFlag w) (children node)
            (s\<lparr>walker := Some (w\<lparr>parentOpacity := parentOpacity w * (opacity (dat node) / 255)\<rparr>)\<rparr>)
          = Some (Inr (cs', s1))" and
      w1: "walker s1 = Some w1" and
      n: "nxt (Node (dat node) cs') (s1\<lparr>walker := Some (w1\<lparr>parentOpacity := parentOpacity w\<rparr>)\<rparr>)
          = Some (Inr (node', s2))" and
      e: "s' = s2\<lparr>g_cullingMask := g_cullingMask s\<rparr>"
      by blast
    from children_loop_walker [OF assms(2) l] w1
    have "w1 = w\<lparr>parentOpacity := parentOpacity w * (opacity (dat node) / 255)\<rparr>" by simp
    then have "w1\<lparr>parentOpacity := parentOpacity w\<rparr> = w" by simp
    with keepsD [OF assms(1) n] have "walker s2 = Some w" by simp
    with e w show ?thesis by simp
  qed
qed

lemma keeps_init:
  assumes "\<And>r. keeps_traversal_state (call r)"
  shows "keeps_traversal_state (flow_init call)"
  by (rule keepsI)
     (auto simp: flow_init_def Let_def split: prod.splits dest!: keepsD [OF assms])

lemma keeps_call_func: "keeps_traversal_state (call_func n r)"
proof (induction n arbitrary: r)
  case 0
  show ?case by (rule keepsI) simp

next
  case (Suc n)
  show ?case
  proof (cases r)
    case None
    then show ?thesis by (auto intro!: keepsI simp: throw_def)
  next
    case (Some a)
    have nx: "keeps_traversal_state (\<lambda>node s. call_func n (this_next a s) node s)"
      by (rule keepsI) (rule keepsD [OF Suc.IH])
    have dp: "keeps_traversal_state (\<lambda>c s. call_func n (flows s (renderFlag (dat c))) c s)"
      by (rule keepsI) (rule keepsD [OF Suc.IH])
    show ?thesis
    proof (rule keepsI)
      fix node s node' s'
      assume r: "call_func (Suc n) r node s = Some (Inr (node', s'))"
      with Some have a: "a < length (flow_heap s)"
        by (auto simp: throw_def split: if_splits)
      show "walker s' = walker s \<and> g_cullingMask s' = g_cullingMask s"
      proof (cases "flow_func (flow_heap s ! a)")
        case F_init
        with r Some a have "flow_init (call_func n) node s = Some (Inr (node', s'))" by simp
        then show ?thesis by (rule keepsD [OF keeps_init [OF Suc.IH]])
      next
        case F_doNothing
        with r Some a have "flow_doNothing node s = Some (Inr (node', s'))" by simp
        then show ?thesis by (rule keepsD [OF keeps_doNothing])
      next
        case F_localTransform
        with r Some a have "flow_localTransform (\<lambda>node s. call_func n (this_next a s) node s) node s
            = Some (Inr (node', s'))" by simp
        then show ?thesis by (rule keepsD [OF keeps_localTransform [OF nx]])
      next
        case F_worldTransform
        with r Some a have "flow_worldTransform (\<lambda>node s. call_func n (this_next a s) node s) node s
            = Some (Inr (node', s'))" by simp
        then show ?thesis by (rule keepsD [OF keeps_worldTransform [OF nx]])
      next
        case F_color
        with r Some a have "flow_color (\<lambda>node s. call_func n (this_next a s) node s) node s
            = Some (Inr (node', s'))" by simp
        then show ?thesis by (rule keepsD [OF keeps_color [OF nx]])
      next
        case F_opacity
        with r Some a have "flow_opacity (\<lambda>node s. call_func n (this_next a s) node s) node s
            = Some (Inr (node', s'))" by simp
        then show ?thesis by (rule keepsD [OF keeps_opacity [OF nx]])
      next
        case F_updateRenderData
        with r Some a have "flow_updateRenderData (\<lambda>node s. call_func n (this_next a s) node s) node s
            = Some (Inr (node', s'))" by simp
        then show ?thesis by (rule keepsD [OF keeps_updateRenderData [OF nx]])
      next
        case F_render
        with r Some a have "flow_render (\<lambda>node s. call_func n (this_next a s) node s) node s
            = Some (Inr (node', s'))" by simp
        then show ?thesis by (rule keepsD [OF keeps_render [OF nx]])
      next
        case F_customIARender
        with r Some a have "flow_customIARender (\<lambda>node s. call_func n (this_next a s) node s) node s
            = Some (Inr (node', s'))" by simp
        then show ?thesis by (rule keepsD [OF keeps_customIARender [OF nx]])
      next
        case F_children
        with r Some a have "flow_children (\<lambda>node s. call_func n (this_next a s) node s)
            (\<lambda>c s. call_func n (flows s (renderFlag (dat c))) c s) node s
            = Some (Inr (node', s'))" by simp
        then show ?thesis by (rule keepsD [OF keeps_children [OF nx dp]])
      next
        case F_postUpdateRenderData
        with r Some a have "flow_postUpdateRenderData (\<lambda>node s. call_func n (this_next a s) node s) node s
            = Some (Inr (node', s'))" by simp
        then show ?thesis by (rule keepsD [OF keeps_postUpdateRenderData [OF nx]])
      next
        case F_postRender
        with r Some a have "flow_postRender (\<lambda>node s. call_func n (this_next a s) node s) node s
            = Some (Inr (node', s'))" by simp
        then show ?thesis by (rule keepsD [OF keeps_postRender [OF nx]])
      qed
    qed
  qed
qed

lemma getFlow_138:
  "getFlow (WORLD_TRANSFORM OR OPACITY OR CHILDREN) module_heap =
     (Some 3, [\<lparr>flow_func = F_doNothing, flow_next = Some 0\<rparr>,
               \<lparr>flow_func = F_children, flow_next = Some 0\<rparr>,
               \<lparr>flow_func = F_opacity, flow_next = Some 1\<rparr>,
               \<lparr>flow_func = F_worldTransform, flow_next = Some 2\<rparr>])"
  by (simp add: getFlow_def FINAL_def getFlow_loop.simps createFlow_def flag_defs
        module_heap_eq new_RenderFlow_def EMPTY_FLOW_def)

lemma busy_run:
  "call_func (Suc (Suc (Suc (Suc 0)))) (Some 3) busy_node
     (example_chain_state (WORLD_TRANSFORM OR OPACITY OR CHILDREN) example_walker) =
   Some (Inr (example_node 4 (Some 1) CHILDREN None [set_flag (WORLD_TRANSFORM OR COLOR) inactive_child],
         emit (MulMat 4 1) (example_chain_state (WORLD_TRANSFORM OR OPACITY OR CHILDREN) example_walker)))"
  apply (simp add: example_chain_state_def getFlow_138 this_next_def busy_node_def)
  apply (simp add: this_next_def flow_worldTransform_def flow_opacity_def flow_children_def flow_doNothing_def
      invisible_def example_node_def walking_state_def module_state_def example_walker_def
      Let_def children_loop_Cons child_skipped_def inactive_child_def emit_def ok_def
      clear_flag_def set_flag_def upd_def flag_defs)
  done

text \<open>
  Claim C6. Whenever the call of a flow object on a node returns, the walker's
  \<open>worldMatDirty\<close>, \<open>parentOpacityDirty\<close> and \<open>parentOpacity\<close> and the module's
  \<open>_cullingMask\<close> have the values they had when the call was made. This holds for every
  flow object of every heap, at every depth of nested calls.
\<close>

theorem traversal_state_restored:
  assumes "call_func n r node s = Some (Inr (node', s'))"
  shows "walker s' = walker s \<and> g_cullingMask s' = g_cullingMask s"
  using keeps_call_func assms by (rule keepsD)

theorem traversal_state_restored_witness:
  "call_func (Suc (Suc (Suc (Suc 0)))) (Some 3) busy_node
     (example_chain_state (WORLD_TRANSFORM OR OPACITY OR CHILDREN) example_walker) =
   Some (Inr (example_node 4 (Some 1) CHILDREN None [set_flag (WORLD_TRANSFORM OR COLOR) inactive_child],
         emit (MulMat 4 1) (example_chain_state (WORLD_TRANSFORM OR OPACITY OR CHILDREN) example_walker))) \<and>
   walker (emit (MulMat 4 1) (example_chain_state (WORLD_TRANSFORM OR OPACITY OR CHILDREN) example_walker))
     = Some example_walker \<and>
   g_cullingMask (emit (MulMat 4 1) (example_chain_state (WORLD_TRANSFORM OR OPACITY OR CHILDREN) example_walker))
     = 0"
  using traversal_state_restored [OF busy_run] busy_run
  by (simp add: example_chain_state_def walking_state_def module_state_def)

lemma init_loop_closed:
  "init_loop i s =
     s\<lparr>flows := (\<lambda>k. if i \<le> k \<and> k < FINAL then Some (length (flow_heap s) + nat (k - i))
                     else flows s k),
       flow_heap := flow_heap s @ replicate (nat (FINAL - i)) new_RenderFlow\<rparr>"
proof (induction i s rule: init_loop.induct)
  case (1 i s)
  show ?case
  proof (cases "i < FINAL")
    case True
    let ?s1 = "s\<lparr>flows := (flows s)(i := Some (length (flow_heap s))),
                 flow_heap := flow_heap s @ [new_RenderFlow]\<rparr>"
    have n: "nat (FINAL - i) = Suc (nat (FINAL - (i + 1)))" using True by simp
    have f: "(\<lambda>k. if i + 1 \<le> k \<and> k < FINAL
                   then Some (length (flow_heap ?s1) + nat (k - (i + 1))) else flows ?s1 k) =
             (\<lambda>k. if i \<le> k \<and> k < FINAL then Some (length (flow_heap s) + nat (k - i))
                   else flows s k)"
    proof
      fix k
      show "(if i + 1 \<le> k \<and> k < FINAL
               then Some (length (flow_heap ?s1) + nat (k - (i + 1))) else flows ?s1 k) =
            (if i \<le> k \<and> k < FINAL then Some (length (flow_heap s) + nat (k - i))
               else flows s k)"
        using True by (cases "k = i") (auto simp: nat_diff_distrib)
    qed
    have "init_loop i s = init_loop (i + 1) ?s1"
      using True by (subst init_loop.simps) simp
    also have "\<dots> = ?s1\<lparr>flows := (\<lambda>k. if i + 1 \<le> k \<and> k < FINAL
                   then Some (length (flow_heap ?s1) + nat (k - (i + 1))) else flows ?s1 k),
       flow_heap := flow_heap ?s1 @ replicate (nat (FINAL - (i + 1))) new_RenderFlow\<rparr>"
      by (rule "1.IH" [OF True])
    also have "\<dots> = s\<lparr>flows := (\<lambda>k. if i \<le> k \<and> k < FINAL then Some (length (flow_heap s) + nat (k - i))
                     else flows s k),
       flow_heap := flow_heap s @ replicate (nat (FINAL - i)) new_RenderFlow\<rparr>"
      by (simp only: f n) (simp add: replicate_append_same)
    finally show ?thesis .
  next
    case False
    then have "(\<lambda>k. if i \<le> k \<and> k < FINAL then Some (length (flow_heap s) + nat (k - i))
                  else flows s k) = flows s"
      by (intro ext) auto
    with False show ?thesis by (subst init_loop.simps) simp
  qed
qed

lemma RenderFlow_init_module:
  "RenderFlow_init w module_state =
     module_state\<lparr>walker := Some w, flows := init_flows, flow_heap := init_heap\<rparr>"
proof (rule state.equality)
  show "flows (RenderFlow_init w module_state) =
        flows (module_state\<lparr>walker := Some w, flows := init_flows, flow_heap := init_heap\<rparr>)"
    by (rule ext)
       (auto simp: RenderFlow_init_def Let_def init_loop_closed module_state_def init_flows_def
          module_heap_eq EMPTY_FLOW_def FINAL_def)
qed (simp_all add: RenderFlow_init_def Let_def init_loop_closed module_state_def init_heap_def
       FINAL_def)

lemma init_heap_length [simp]: "length init_heap = 1024"
  by (simp add: init_heap_def module_heap_eq)

lemma init_heap_nth:
  "init_heap ! 0 = \<lparr>flow_func = F_doNothing, flow_next = Some EMPTY_FLOW\<rparr>"
  "0 < a \<Longrightarrow> a < 1024 \<Longrightarrow> init_heap ! a = new_RenderFlow"
  by (simp_all add: init_heap_def module_heap_eq nth_append nth_Cons split: nat.splits)

lemma stage_names_not_init: "k < 10 \<Longrightarrow> stage_names ! k \<noteq> F_init"
  by (drule small_cases) (auto simp only: stage_names_nth func.distinct)

lemma good_heap_snoc:
  assumes "good_heap h" and "b < length h" and "flow_func (h ! b) \<noteq> F_init"
  shows "good_heap (h @ [\<lparr>flow_func = f, flow_next = Some b\<rparr>])"
  unfolding good_heap_def
proof (intro conjI allI impI)
  show "h @ [\<lparr>flow_func = f, flow_next = Some b\<rparr>] \<noteq> []" by simp
  show "(h @ [\<lparr>flow_func = f, flow_next = Some b\<rparr>]) ! EMPTY_FLOW =
        \<lparr>flow_func = F_doNothing, flow_next = Some EMPTY_FLOW\<rparr>"
    using assms(1) by (simp add: good_heap_def nth_append EMPTY_FLOW_def)

next
  fix a c
  assume a: "a < length (h @ [\<lparr>flow_func = f, flow_next = Some b\<rparr>])"
    and c: "flow_next ((h @ [\<lparr>flow_func = f, flow_next = Some b\<rparr>]) ! a) = Some c"
  have "c < length h \<and> flow_func (h ! c) \<noteq> F_init"
  proof (cases "a < length h")
    case True
    with c assms(1) show ?thesis by (simp add: good_heap_def nth_append)
  next
    case False
    with a have "a = length h" by simp
    with c assms(2,3) show ?thesis by simp
  qed
  then show "c < length (h @ [\<lparr>flow_func = f, flow_next = Some b\<rparr>])"
    and "flow_func ((h @ [\<lparr>flow_func = f, flow_next = Some b\<rparr>]) ! c) \<noteq> F_init"
    by (simp_all add: nth_append)
qed

lemma ref_or_empty_live:
  "good_heap h \<Longrightarrow> live_ref h flow \<Longrightarrow>
     ref_or_empty flow < length h \<and> flow_func (h ! ref_or_empty flow) \<noteq> F_init"
  by (cases flow) (auto simp: ref_or_empty_def good_heap_def live_ref_def EMPTY_FLOW_def)

lemma getFlow_step_good:
  assumes "k < 10" and "good_heap h" and "live_ref h flow"
  shows "good_heap (h @ [\<lparr>flow_func = stage_names ! k, flow_next = Some (ref_or_empty flow)\<rparr>]) \<and>
         live_ref (h @ [\<lparr>flow_func = stage_names ! k, flow_next = Some (ref_or_empty flow)\<rparr>])
           (Some (length h))"
  using ref_or_empty_live [OF assms(2,3)] good_heap_snoc [OF assms(2)]
    stage_names_not_init [OF assms(1)]
  by (simp add: live_ref_def)

lemma getFlow_loop_good:
  assumes "k < 10" and "good_heap h" and "live_ref h flow"
  shows "\<exists>flow' h'. getFlow_loop m (2 ^ k) flow h = (flow', h @ h') \<and>
           good_heap (h @ h') \<and> live_ref (h @ h') flow'"
  using assms
proof (induction k arbitrary: h flow)
  case 0
  have cf: "createFlow 1 flow h =
      (length h, h @ [\<lparr>flow_func = stage_names ! 0, flow_next = Some (ref_or_empty flow)\<rparr>])"
    using createFlow_pow [of 0 flow h] by simp
  show ?case
  proof (cases "1 AND m \<noteq> (0::int)")
    case True
    then show ?thesis
      using getFlow_step_good [OF "0.prems"] by (simp add: getFlow_loop_one cf)
  next
    case False
    then have "getFlow_loop m (2 ^ 0) flow h = (flow, h @ [])"
      by (simp add: getFlow_loop_one)
    then show ?thesis using "0.prems" by (metis append_Nil2)
  qed

next
  case (Suc k)
  then have k: "k < 10" and sk: "Suc k < 10" by simp_all
  show ?case
  proof (cases "2 ^ Suc k AND m \<noteq> (0::int)")
    case True
    let ?fl = "\<lparr>flow_func = stage_names ! Suc k, flow_next = Some (ref_or_empty flow)\<rparr>"
    have step: "getFlow_loop m (2 ^ Suc k) flow h =
        getFlow_loop m (2 ^ k) (Some (length h)) (h @ [?fl])"
      by (subst getFlow_loop_Suc, subst if_P [OF True])
         (simp only: createFlow_pow [OF sk] fst_conv snd_conv)
    from getFlow_step_good [OF sk Suc.prems(2,3)]
    have g: "good_heap (h @ [?fl])" and l: "live_ref (h @ [?fl]) (Some (length h))" by simp_all
    from Suc.IH [OF k g l] obtain flow' h' where
      "getFlow_loop m (2 ^ k) (Some (length h)) (h @ [?fl]) = (flow', (h @ [?fl]) @ h')"
      "good_heap ((h @ [?fl]) @ h')" "live_ref ((h @ [?fl]) @ h') flow'"
      by blast
    then have "getFlow_loop m (2 ^ Suc k) flow h = (flow', h @ ([?fl] @ h'))"
      "good_heap (h @ ([?fl] @ h'))" "live_ref (h @ ([?fl] @ h')) flow'"
      by (simp_all only: step append_assoc)
    then show ?thesis by blast
  next
    case False
    have step: "getFlow_loop m (2 ^ Suc k) flow h = getFlow_loop m (2 ^ k) flow h"
      by (subst getFlow_loop_Suc) (simp only: if_not_P [OF False])
    from Suc.IH [OF k Suc.prems(2,3)] show ?thesis
      by (simp only: step)
  qed
qed

lemma getFlow_good:
  assumes "0 \<le> m" and "m < FINAL" and "good_heap h"
  shows "\<exists>flow' h'. getFlow m h = (flow', h @ h') \<and>
           good_heap (h @ h') \<and> live_ref (h @ h') flow'"
proof -
  have "take_bit 10 m = m" using assms(1,2)
    by (simp add: take_bit_int_eq_self FINAL_def)
  then have "\<not> bit m 10"
    by (metis bit_take_bit_iff less_irrefl)
  then have nb: "(2::int) ^ 10 AND m = 0"
    by (simp only: and.commute [of "2 ^ 10" m] and_exp_eq_0_iff_not_bit not_False_eq_True)
  have "getFlow m h = getFlow_loop m (2 ^ 9) None h"
    unfolding getFlow_def FINAL_def
    using getFlow_loop_Suc [of m 9 None h] nb by simp
  moreover have "live_ref h None" by (simp add: live_ref_def)
  ultimately show ?thesis
    using getFlow_loop_good [of 9 h None m] assms(3) by simp
qed

lemma cache_safeI:
  "(\<And>node s node' s'. wf_cache s \<Longrightarrow> f node s = Some (Inr (node', s')) \<Longrightarrow>
      wf_cache s' \<and> cache_extends s s') \<Longrightarrow> cache_safe f"
  by (simp add: cache_safe_def)

lemma cache_safeD:
  "cache_safe f \<Longrightarrow> wf_cache s \<Longrightarrow> f node s = Some (Inr (node', s')) \<Longrightarrow>
     wf_cache s' \<and> cache_extends s s'"
  by (simp add: cache_safe_def)

lemma wf_cache_core:
  "flows s1 = flows s \<Longrightarrow> flow_heap s1 = flow_heap s \<Longrightarrow> wf_cache s1 = wf_cache s"
  by (simp add: wf_cache_def)

lemma cache_extends_core:
  "flows s1 = flows s \<Longrightarrow> flow_heap s1 = flow_heap s \<Longrightarrow>
   flows t1 = flows t \<Longrightarrow> flow_heap t1 = flow_heap t \<Longrightarrow>
   cache_extends s1 t1 = cache_extends s t"
  by (simp add: cache_extends_def compiled_def)

lemma cache_extends_refl [simp]: "cache_extends s s"
  by (simp add: cache_extends_def compiled_def)

lemma cache_extends_trans:
  assumes "cache_extends s s1" and "cache_extends s1 s2"
  shows "cache_extends s s2"
proof -
  from assms obtain h h1 where h: "flow_heap s1 = flow_heap s @ h"
    and h1: "flow_heap s2 = flow_heap s1 @ h1"
    by (auto simp: cache_extends_def)
  have "\<And>k a. compiled s k a \<Longrightarrow> compiled s1 k a"
    using assms(1) h by (auto simp: cache_extends_def compiled_def nth_append)
  then have "\<forall>k a. compiled s k a \<longrightarrow> flows s2 k = Some a"
    using assms(2) by (auto simp: cache_extends_def)
  moreover have "flow_heap s2 = flow_heap s @ (h @ h1)" using h h1 by simp
  ultimately show ?thesis unfolding cache_extends_def by blast
qed

lemma same_core_cache:
  assumes "same_core s s1"
  shows "wf_cache s1 = wf_cache s" and "cache_extends s1 t = cache_extends s t"
    and "cache_extends t s1 = cache_extends t s"
proof -
  from assms have f: "flows s1 = flows s" and h: "flow_heap s1 = flow_heap s"
    by (simp_all add: same_core_def)
  show "wf_cache s1 = wf_cache s" by (rule wf_cache_core [OF f h])
  show "cache_extends s1 t = cache_extends s t"
    by (rule cache_extends_core [OF f h refl refl])
  show "cache_extends t s1 = cache_extends t s"
    by (rule cache_extends_core [OF refl refl f h])
qed

lemma cache_update_simps [simp]:
  "wf_cache (s\<lparr>walker := x\<rparr>) = wf_cache s"
  "wf_cache (s\<lparr>g_cullingMask := y\<rparr>) = wf_cache s"
  "wf_cache (emit e s) = wf_cache s"
  "cache_extends (s\<lparr>walker := x\<rparr>) t = cache_extends s t"
  "cache_extends (s\<lparr>g_cullingMask := y\<rparr>) t = cache_extends s t"
  "cache_extends (emit e s) t = cache_extends s t"
  "cache_extends t (s\<lparr>walker := x\<rparr>) = cache_extends t s"
  "cache_extends t (s\<lparr>g_cullingMask := y\<rparr>) = cache_extends t s"
  "cache_extends t (emit e s) = cache_extends t s"
  by (simp_all add: wf_cache_def cache_extends_def compiled_def)

lemma safe_after_core:
  assumes "cache_safe nxt" and "wf_cache s" and "same_core s s1"
    and "nxt n1 s1 = Some (Inr (node', s'))"
  shows "wf_cache s' \<and> cache_extends s s'"
  using cache_safeD [OF assms(1) _ assms(4)] assms(2,3)
  by (simp add: same_core_cache)

lemma safe_doNothing: "cache_safe flow_doNothing"
  by (rule cache_safeI) (simp add: flow_doNothing_def)

lemma safe_localTransform:
  assumes "cache_safe nxt"
  shows "cache_safe (flow_localTransform nxt)"
proof (rule cache_safeI)
  fix node s node' s'
  assume wf: "wf_cache s" and r: "flow_localTransform nxt node s = Some (Inr (node', s'))"
  from r have "nxt (clear_flag LOCAL_TRANSFORM node) (emit (UpdateLocalMatrix (nid (dat node))) s)
      = Some (Inr (node', s'))"
    by (simp add: flow_localTransform_def Let_def)
  from cache_safeD [OF assms _ this] wf show "wf_cache s' \<and> cache_extends s s'" by simp
qed

lemma safe_worldTransform:
  assumes "cache_safe nxt"
  shows "cache_safe (flow_worldTransform nxt)"
proof (rule cache_safeI)
  fix node s node' s'
  assume wf: "wf_cache s" and r: "flow_worldTransform nxt node s = Some (Inr (node', s'))"
  show "wf_cache s' \<and> cache_extends s s'"
  proof (cases "invisible node")
    case True
    with r wf show ?thesis by (simp add: flow_worldTransform_def)
  next
    case False
    with r obtain w p where w: "walker s = Some w" and p: "parent (dat node) = Some p"
      by (auto simp: flow_worldTransform_def throw_def split: option.splits)
    let ?s1 = "emit (MulMat (nid (dat node)) p)
                 (s\<lparr>walker := Some (w\<lparr>worldMatDirty := worldMatDirty w + 1\<rparr>)\<rparr>)"
    from r False w p obtain n2 s2 w2 where
      k: "nxt (clear_flag WORLD_TRANSFORM node) ?s1 = Some (Inr (n2, s2))" and
      e: "s' = s2\<lparr>walker := Some (w2\<lparr>worldMatDirty := worldMatDirty w2 - 1\<rparr>)\<rparr>"
      by (auto simp: flow_worldTransform_def Let_def bind_res_Inr throw_def split: option.splits)
    from cache_safeD [OF assms _ k] wf e show ?thesis by simp
  qed
qed

lemma safe_opacity:
  assumes "cache_safe nxt"
  shows "cache_safe (flow_opacity nxt)"
proof (rule cache_safeI)
  fix node s node' s'
  assume wf: "wf_cache s" and r: "flow_opacity nxt node s = Some (Inr (node', s'))"
  show "wf_cache s' \<and> cache_extends s s'"
  proof (cases "invisible node")
    case True
    with r wf show ?thesis by (simp add: flow_opacity_def)
  next
    case False
    with r obtain w where w: "walker s = Some w"
      by (auto simp: flow_opacity_def throw_def split: option.splits)
    let ?s1 = "s\<lparr>walker := Some (w\<lparr>parentOpacityDirty := parentOpacityDirty w + 1\<rparr>)\<rparr>"
    from r False w obtain n2 s2 w2 where
      k: "nxt (clear_flag OPACITY node) ?s1 = Some (Inr (n2, s2))" and
      e: "s' = s2\<lparr>walker := Some (w2\<lparr>parentOpacityDirty := parentOpacityDirty w2 - 1\<rparr>)\<rparr>"
      by (auto simp: flow_opacity_def Let_def bind_res_Inr throw_def split: option.splits)
    from cache_safeD [OF assms _ k] wf e show ?thesis by simp
  qed
qed

lemma safe_color:
  assumes "cache_safe nxt"
  shows "cache_safe (flow_color nxt)"
proof (rule cache_safeI)
  fix node s node' s'
  assume wf: "wf_cache s" and r: "flow_color nxt node s = Some (Inr (node', s'))"
  show "wf_cache s' \<and> cache_extends s s'"
  proof (cases "invisible node")
    case True
    with r wf show ?thesis by (simp add: flow_color_def)
  next
    case False
    show ?thesis
    proof (cases "renderComponent (dat node)")
      case None
      with r False have "nxt (clear_flag COLOR node) s = Some (Inr (node', s'))"
        by (simp add: flow_color_def)
      from cache_safeD [OF assms wf this] show ?thesis .
    next
      case (Some c)
      with r False have "nxt (clear_flag COLOR node)
          (emit (UpdateColor (nid (dat node)) (color_val (dat node))) s) = Some (Inr (node', s'))"
        by (simp add: flow_color_def comp_updateColor_def)
      from cache_safeD [OF assms _ this] wf show ?thesis by simp
    qed
  qed
qed

lemma updateRenderData_pre_core:
  "(case renderComponent (dat node) of
      None \<Rightarrow> ok (node, s)
    | Some c \<Rightarrow>
        (case comp_assembler c of
           None \<Rightarrow> throw TypeError
         | Some a \<Rightarrow> assembler_updateRenderData a c node s)) = Some (Inr (n1, s1)) \<Longrightarrow>
   same_core s s1"
  by (cases "renderComponent (dat node)")
     (auto simp: throw_def split: option.splits dest: assembler_updateRenderData_core)

lemma render_pre_core:
  "(case renderComponent (dat node) of
      None \<Rightarrow> ok (node, s)
    | Some c \<Rightarrow>
        (case walker s of
           None \<Rightarrow> throw TypeError
         | Some w \<Rightarrow> commitComp c (comp_assembler c) (cullingMask (dat node)) node s))
     = Some (Inr (n1, s1)) \<Longrightarrow>
   same_core s s1"
  by (cases "renderComponent (dat node)")
     (auto simp: throw_def split: option.splits dest: commitComp_core)

lemma customIARender_pre_core:
  "(case renderComponent (dat node) of
      None \<Rightarrow> ok (node, s)
    | Some c \<Rightarrow>
        (case walker s of
           None \<Rightarrow> throw TypeError
         | Some w \<Rightarrow> commitIA c (comp_assembler c) (cullingMask (dat node)) node s))
     = Some (Inr (n1, s1)) \<Longrightarrow>
   same_core s s1"
  by (cases "renderComponent (dat node)")
     (auto simp: throw_def split: option.splits dest: commitIA_core)

lemma postUpdateRenderData_pre_core:
  "(case comp_postAssembler c of
      None \<Rightarrow> ok (node, s)
    | Some a \<Rightarrow> assembler_updateRenderData a c node s) = Some (Inr (n1, s1)) \<Longrightarrow>
   same_core s s1"
  by (cases "comp_postAssembler c") (auto dest: assembler_updateRenderData_core)

lemma safe_updateRenderData:
  assumes "cache_safe nxt"
  shows "cache_safe (flow_updateRenderData nxt)"
proof (rule cache_safeI)
  fix node s node' s'
  assume wf: "wf_cache s" and r: "flow_updateRenderData nxt node s = Some (Inr (node', s'))"
  show "wf_cache s' \<and> cache_extends s s'"
  proof (cases "invisible node")
    case True
    with r wf show ?thesis by (simp add: flow_updateRenderData_def)
  next
    case False
    with r obtain n1 s1 where c: "same_core s s1"
      and k: "nxt (clear_flag UPDATE_RENDER_DATA n1) s1 = Some (Inr (node', s'))"
      by (auto simp: flow_updateRenderData_def bind_res_Inr dest: updateRenderData_pre_core)
    from safe_after_core [OF assms wf c k] show ?thesis .
  qed
qed

lemma safe_render:
  assumes "cache_safe nxt"
  shows "cache_safe (flow_render nxt)"
proof (rule cache_safeI)
  fix node s node' s'
  assume wf: "wf_cache s" and r: "flow_render nxt node s = Some (Inr (node', s'))"
  show "wf_cache s' \<and> cache_extends s s'"
  proof (cases "invisible node")
    case True
    with r wf show ?thesis by (simp add: flow_render_def)
  next
    case False
    with r obtain n1 s1 where c: "same_core s s1"
      and k: "nxt n1 s1 = Some (Inr (node', s'))"
      by (auto simp: flow_render_def bind_res_Inr dest: render_pre_core)
    from safe_after_core [OF assms wf c k] show ?thesis .
  qed
qed

lemma safe_customIARender:
  assumes "cache_safe nxt"
  shows "cache_safe (flow_customIARender nxt)"
proof (rule cache_safeI)
  fix node s node' s'
  assume wf: "wf_cache s" and r: "flow_customIARender nxt node s = Some (Inr (node', s'))"
  show "wf_cache s' \<and> cache_extends s s'"
  proof (cases "invisible node")
    case True
    with r wf show ?thesis by (simp add: flow_customIARender_def)
  next
    case False
    with r obtain n1 s1 where c: "same_core s s1"
      and k: "nxt n1 s1 = Some (Inr (node', s'))"
      by (auto simp: flow_customIARender_def bind_res_Inr dest: customIARender_pre_core)
    from safe_after_core [OF assms wf c k] show ?thesis .
  qed
qed

lemma safe_postUpdateRenderData:
  assumes "cache_safe nxt"
  shows "cache_safe (flow_postUpdateRenderData nxt)"
proof (rule cache_safeI)
  fix node s node' s'
  assume wf: "wf_cache s" and r: "flow_postUpdateRenderData nxt node s = Some (Inr (node', s'))"
  show "wf_cache s' \<and> cache_extends s s'"
  proof (cases "invisible node")
    case True
    with r wf show ?thesis by (simp add: flow_postUpdateRenderData_def)
  next
    case False
    with r obtain c0 where c0: "renderComponent (dat node) = Some c0"
      by (auto simp: flow_postUpdateRenderData_def throw_def split: option.splits)
    with r False obtain n1 s1 where c: "same_core s s1"
      and k: "nxt (clear_flag POST_UPDATE_RENDER_DATA n1) s1 = Some (Inr (node', s'))"
      by (auto simp: flow_postUpdateRenderData_def bind_res_Inr
               dest: postUpdateRenderData_pre_core)
    from safe_after_core [OF assms wf c k] show ?thesis .
  qed
qed

lemma safe_postRender:
  assumes "cache_safe nxt"
  shows "cache_safe (flow_postRender nxt)"
proof (rule cache_safeI)
  fix node s node' s'
  assume wf: "wf_cache s" and r: "flow_postRender nxt node s = Some (Inr (node', s'))"
  show "wf_cache s' \<and> cache_extends s s'"
  proof (cases "invisible node")
    case True
    with r wf show ?thesis by (simp add: flow_postRender_def)
  next
    case False
    with r obtain w0 c0 where "walker s = Some w0" and "renderComponent (dat node) = Some c0"
      by (auto simp: flow_postRender_def throw_def split: option.splits)
    with r False obtain n1 s1 where c: "same_core s s1"
      and k: "nxt n1 s1 = Some (Inr (node', s'))"
      by (auto simp: flow_postRender_def bind_res_Inr dest: commitComp_core)
    from safe_after_core [OF assms wf c k] show ?thesis .
  qed
qed

lemma children_loop_cache:
  assumes "cache_safe disp"
  shows "wf_cache s \<Longrightarrow> children_loop disp cm op dirty cs s = Some (Inr (cs', s')) \<Longrightarrow>
           wf_cache s' \<and> cache_extends s s'"
proof (induction cs arbitrary: s cs' s')
  case Nil
  then show ?case by simp

next
  case (Cons c cs)
  show ?case
  proof (cases "child_skipped c")
    case True
    with Cons.prems obtain cs1 where
      "children_loop disp cm op dirty cs s = Some (Inr (cs1, s'))"
      by (auto simp: children_loop_Cons bind_res_Inr)
    with Cons.prems(1) show ?thesis by (rule Cons.IH)
  next
    case False
    with Cons.prems obtain c1 s1 cs1 where
      d: "disp (child_at_dispatch cm op dirty c)
            (s\<lparr>g_cullingMask := (if groupIndex (dat c) = 0 then cm else js_shl1 (groupIndex (dat c)))\<rparr>)
          = Some (Inr (c1, s1))" and
      r: "children_loop disp cm op dirty cs s1 = Some (Inr (cs1, s'))"
      by (auto simp: children_loop_Cons bind_res_Inr)
    from cache_safeD [OF assms _ d] Cons.prems(1)
    have w1: "wf_cache s1" and e1: "cache_extends s s1" by simp_all
    from Cons.IH [OF w1 r] e1 show ?thesis
      by (auto intro: cache_extends_trans)
  qed
qed

lemma safe_children:
  assumes "cache_safe nxt" and "cache_safe disp"
  shows "cache_safe (flow_children nxt disp)"
proof (rule cache_safeI)
  fix node s node' s'
  assume wf: "wf_cache s" and r: "flow_children nxt disp node s = Some (Inr (node', s'))"
  show "wf_cache s' \<and> cache_extends s s'"
  proof (cases "invisible node")
    case True
    with r wf show ?thesis by (simp add: flow_children_def)
  next
    case False
    with r obtain w where w: "walker s = Some w"
      by (auto simp: flow_children_def Let_def throw_def split: option.splits)
    from flow_children_returns [OF False w r] obtain cs' s1 w1 s2 where
      l: "children_loop disp (g_cullingMask s) (parentOpacity w * (opacity (dat node) / 255))
            (worldDirtyFlag w) (children node)
            (s\<lparr>walker := Some (w\<lparr>parentOpacity := parentOpacity w * (opacity (dat node) / 255)\<rparr>)\<rparr>)
          = Some (Inr (cs', s1))" and
      n: "nxt (Node (dat node) cs') (s1\<lparr>walker := Some (w1\<lparr>parentOpacity := parentOpacity w\<rparr>)\<rparr>)
          = Some (Inr (node', s2))" and
      e: "s' = s2\<lparr>g_cullingMask := g_cullingMask s\<rparr>"
      by blast
    from children_loop_cache [OF assms(2) _ l] wf
    have w1: "wf_cache s1" and e1: "cache_extends s s1" by simp_all
    from cache_safeD [OF assms(1) _ n] w1
    have "wf_cache s2" and "cache_extends s1 s2" by simp_all
    with e e1 show ?thesis by (auto intro: cache_extends_trans)
  qed
qed

lemma init_cache:
  assumes ih: "\<And>r node s node' s'. wf_cache s \<Longrightarrow> entry_ok r node s \<Longrightarrow>
                 call r node s = Some (Inr (node', s')) \<Longrightarrow> wf_cache s' \<and> cache_extends s s'"
    and wf: "wf_cache s"
    and slot: "flows s (renderFlag (dat node)) = Some a"
    and ph: "flow_func (flow_heap s ! a) = F_init"
    and r: "flow_init call node s = Some (Inr (node', s'))"
  shows "wf_cache s' \<and> cache_extends s s'"
proof -
  let ?m = "renderFlag (dat node)"
  from wf slot have m: "0 \<le> ?m" "?m < FINAL" and a: "a < length (flow_heap s)"
    and gh: "good_heap (flow_heap s)"
    by (auto simp: wf_cache_def)
  from getFlow_good [OF m gh] obtain flow' h' where
    g: "getFlow ?m (flow_heap s) = (flow', flow_heap s @ h')"
    and gh': "good_heap (flow_heap s @ h')"
    and lv: "live_ref (flow_heap s @ h') flow'"
    by blast
  let ?s1 = "s\<lparr>flows := (flows s)(?m := flow'), flow_heap := flow_heap s @ h'\<rparr>"
  from r g have c: "call flow' node ?s1 = Some (Inr (node', s'))"
    by (simp add: flow_init_def Let_def)
  have w1: "wf_cache ?s1"
    unfolding wf_cache_def
  proof (intro conjI allI impI)
    show "good_heap (flow_heap ?s1)" using gh' by simp
  next
    fix k b
    assume f: "flows ?s1 k = Some b"
    have "0 \<le> k \<and> k < FINAL \<and> b < length (flow_heap ?s1)"
    proof (cases "k = ?m")
      case True
      with f have "flow' = Some b" by simp
      with lv have "b < length (flow_heap s @ h')" by (simp add: live_ref_def)
      with True m show ?thesis by simp
    next
      case False
      with f have "flows s k = Some b" by simp
      with wf have "0 \<le> k \<and> k < FINAL \<and> b < length (flow_heap s)"
        by (simp add: wf_cache_def)
      then show ?thesis by simp
    qed
    then show "0 \<le> k" and "k < FINAL" and "b < length (flow_heap ?s1)" by simp_all
  qed
  have e1: "entry_ok flow' node ?s1"
    using lv by (auto simp: entry_ok_def live_ref_def)
  have x1: "cache_extends s ?s1"
    unfolding cache_extends_def
  proof (intro conjI allI impI)
    show "\<exists>h. flow_heap ?s1 = flow_heap s @ h" by simp
  next
    fix k b
    assume "compiled s k b"
    then have "flows s k = Some b" and "flow_func (flow_heap s ! b) \<noteq> F_init"
      by (simp_all add: compiled_def)
    with slot ph have "k \<noteq> ?m" by auto
    with \<open>flows s k = Some b\<close> show "flows ?s1 k = Some b" by simp
  qed
  from ih [OF w1 e1 c] x1 show ?thesis
    by (auto intro: cache_extends_trans)
qed

lemma call_func_cache:
  "wf_cache s \<Longrightarrow> entry_ok r node s \<Longrightarrow> call_func n r node s = Some (Inr (node', s')) \<Longrightarrow>
     wf_cache s' \<and> cache_extends s s'"
proof (induction n arbitrary: r node s node' s')
  case 0
  then show ?case by simp

next
  case (Suc n)
  from Suc.prems(3) obtain a where ra: "r = Some a" and a: "a < length (flow_heap s)"
    by (cases r) (auto simp: throw_def split: if_splits)
  have nx: "cache_safe (\<lambda>node s. call_func n (this_next a s) node s)"
  proof (rule cache_safeI)
    fix node s node' s'
    assume wf: "wf_cache s" and c: "call_func n (this_next a s) node s = Some (Inr (node', s'))"
    have "entry_ok (this_next a s) node s"
      using wf by (auto simp: entry_ok_def this_next_def wf_cache_def good_heap_def split: if_splits)
    from Suc.IH [OF wf this c] show "wf_cache s' \<and> cache_extends s s'" .
  qed
  have dp: "cache_safe (\<lambda>c s. call_func n (flows s (renderFlag (dat c))) c s)"
  proof (rule cache_safeI)
    fix node s node' s'
    assume wf: "wf_cache s"
      and c: "call_func n (flows s (renderFlag (dat node))) node s = Some (Inr (node', s'))"
    have "entry_ok (flows s (renderFlag (dat node))) node s"
      by (simp add: entry_ok_def)
    from Suc.IH [OF wf this c] show "wf_cache s' \<and> cache_extends s s'" .
  qed
  note wf = Suc.prems(1)
  note run = Suc.prems(3) [unfolded ra]
  show ?case
  proof (cases "flow_func (flow_heap s ! a)")
    case F_init
    with Suc.prems(2) ra a have slot: "flows s (renderFlag (dat node)) = Some a"
      by (simp add: entry_ok_def)
    from run F_init a have "flow_init (call_func n) node s = Some (Inr (node', s'))" by simp
    from init_cache [OF Suc.IH wf slot F_init this] show ?thesis .
  next
    case F_doNothing
    with run a have "flow_doNothing node s = Some (Inr (node', s'))" by simp
    from cache_safeD [OF safe_doNothing wf this] show ?thesis .
  next
    case F_localTransform
    with run a have "flow_localTransform (\<lambda>node s. call_func n (this_next a s) node s) node s
        = Some (Inr (node', s'))" by simp
    from cache_safeD [OF safe_localTransform [OF nx] wf this] show ?thesis .
  next
    case F_worldTransform
    with run a have "flow_worldTransform (\<lambda>node s. call_func n (this_next a s) node s) node s
        = Some (Inr (node', s'))" by simp
    from cache_safeD [OF safe_worldTransform [OF nx] wf this] show ?thesis .
  next
    case F_color
    with run a have "flow_color (\<lambda>node s. call_func n (this_next a s) node s) node s
        = Some (Inr (node', s'))" by simp
    from cache_safeD [OF safe_color [OF nx] wf this] show ?thesis .
  next
    case F_opacity
    with run a have "flow_opacity (\<lambda>node s. call_func n (this_next a s) node s) node s
        = Some (Inr (node', s'))" by simp
    from cache_safeD [OF safe_opacity [OF nx] wf this] show ?thesis .
  next
    case F_updateRenderData
    with run a have "flow_updateRenderData (\<lambda>node s. call_func n (this_next a s) node s) node s
        = Some (Inr (node', s'))" by simp
    from cache_safeD [OF safe_updateRenderData [OF nx] wf this] show ?thesis .
  next
    case F_render
    with run a have "flow_render (\<lambda>node s. call_func n (this_next a s) node s) node s
        = Some (Inr (node', s'))" by simp
    from cache_safeD [OF safe_render [OF nx] wf this] show ?thesis .
  next
    case F_customIARender
    with run a have "flow_customIARender (\<lambda>node s. call_func n (this_next a s) node s) node s
        = Some (Inr (node', s'))" by simp
    from cache_safeD [OF safe_customIARender [OF nx] wf this] show ?thesis .
  next
    case F_children
    with run a have "flow_children (\<lambda>node s. call_func n (this_next a s) node s)
        (\<lambda>c s. call_func n (flows s (renderFlag (dat c))) c s) node s
        = Some (Inr (node', s'))" by simp
    from cache_safeD [OF safe_children [OF nx dp] wf this] show ?thesis .
  next
    case F_postUpdateRenderData
    with run a have "flow_postUpdateRenderData (\<lambda>node s. call_func n (this_next a s) node s) node s
        = Some (Inr (node', s'))" by simp
    from cache_safeD [OF safe_postUpdateRenderData [OF nx] wf this] show ?thesis .
  next
    case F_postRender
    with run a have "flow_postRender (\<lambda>node s. call_func n (this_next a s) node s) node s
        = Some (Inr (node', s'))" by simp
    from cache_safeD [OF safe_postRender [OF nx] wf this] show ?thesis .
  qed
qed

lemma dispatch_cache:
  "wf_cache s \<Longrightarrow> dispatch n node s = Some (Inr (node', s')) \<Longrightarrow>
     wf_cache s' \<and> cache_extends s s'"
  unfolding dispatch_def by (rule call_func_cache) (simp_all add: entry_ok_def)

lemma render_cache:
  assumes "wf_cache s" and "render n scene s = Some (Inr (scene', s'))"
  shows "wf_cache s' \<and> cache_extends s s'"
proof (cases "renderFlag (dat scene) AND WORLD_TRANSFORM \<noteq> 0")
  case True
  with assms(2) obtain w where w: "walker s = Some w"
    by (auto simp: render_def Let_def throw_def split: option.splits)
  let ?s1 = "emit (CalculWorldMatrix (nid (dat scene)))
     (s\<lparr>g_cullingMask := js_shl1 (groupIndex (dat scene)),
        walker := Some (w\<lparr>worldMatDirty := worldMatDirty w + 1\<rparr>)\<rparr>)"
  from assms(2) True w obtain n2 s2 w2 where
    d: "dispatch n (clear_flag WORLD_TRANSFORM scene) ?s1 = Some (Inr (n2, s2))" and
    e: "s' = s2\<lparr>walker := Some (w2\<lparr>worldMatDirty := worldMatDirty w2 - 1\<rparr>)\<rparr>"
    by (auto simp: render_def Let_def bind_res_Inr throw_def split: option.splits)
  have "wf_cache ?s1" using assms(1) by (simp add: wf_cache_def)
  from dispatch_cache [OF this d] e show ?thesis
    by (simp add: cache_extends_def compiled_def wf_cache_def)

next
  case False
  with assms(2) have d: "dispatch n scene (s\<lparr>g_cullingMask := js_shl1 (groupIndex (dat scene))\<rparr>)
      = Some (Inr (scene', s'))"
    by (simp add: render_def Let_def)
  from dispatch_cache [OF _ d] assms(1) show ?thesis by simp
qed

lemma wf_cache_init: "wf_cache (RenderFlow_init w module_state)"
proof -
  have gh: "good_heap init_heap"
    unfolding good_heap_def
  proof (intro conjI allI impI)
    show "init_heap \<noteq> []" by (simp add: init_heap_def module_heap_eq)
    show "init_heap ! EMPTY_FLOW = \<lparr>flow_func = F_doNothing, flow_next = Some EMPTY_FLOW\<rparr>"
      by (simp add: init_heap_nth EMPTY_FLOW_def)
  next
    fix a b
    assume a: "a < length init_heap" and b: "flow_next (init_heap ! a) = Some b"
    have "a = 0"
    proof (rule ccontr)
      assume "a \<noteq> 0"
      with a have "init_heap ! a = new_RenderFlow" by (simp add: init_heap_nth)
      with b show False by (simp add: new_RenderFlow_def)
    qed
    with b have "b = 0" by (simp add: init_heap_nth EMPTY_FLOW_def)
    then show "b < length init_heap" and "flow_func (init_heap ! b) \<noteq> F_init"
      by (simp_all add: init_heap_nth)
  qed
  show ?thesis
    unfolding RenderFlow_init_module using gh
    by (auto simp: wf_cache_def init_flows_def FINAL_def split: if_splits)
qed

lemma call_func_stage:
  "a < length (flow_heap s) \<Longrightarrow> flow_func (flow_heap s ! a) = F_doNothing \<Longrightarrow>
     call_func (Suc n) (Some a) node s = flow_doNothing node s"
  "a < length (flow_heap s) \<Longrightarrow> flow_func (flow_heap s ! a) = F_localTransform \<Longrightarrow>
     call_func (Suc n) (Some a) node s = flow_localTransform (\<lambda>node s. call_func n (this_next a s) node s) node s"
  "a < length (flow_heap s) \<Longrightarrow> flow_func (flow_heap s ! a) = F_worldTransform \<Longrightarrow>
     call_func (Suc n) (Some a) node s = flow_worldTransform (\<lambda>node s. call_func n (this_next a s) node s) node s"
  "a < length (flow_heap s) \<Longrightarrow> flow_func (flow_heap s ! a) = F_color \<Longrightarrow>
     call_func (Suc n) (Some a) node s = flow_color (\<lambda>node s. call_func n (this_next a s) node s) node s"
  "a < length (flow_heap s) \<Longrightarrow> flow_func (flow_heap s ! a) = F_opacity \<Longrightarrow>
     call_func (Suc n) (Some a) node s = flow_opacity (\<lambda>node s. call_func n (this_next a s) node s) node s"
  "a < length (flow_heap s) \<Longrightarrow> flow_func (flow_heap s ! a) = F_updateRenderData \<Longrightarrow>
     call_func (Suc n) (Some a) node s = flow_updateRenderData (\<lambda>node s. call_func n (this_next a s) node s) node s"
  "a < length (flow_heap s) \<Longrightarrow> flow_func (flow_heap s ! a) = F_render \<Longrightarrow>
     call_func (Suc n) (Some a) node s = flow_render (\<lambda>node s. call_func n (this_next a s) node s) node s"
  "a < length (flow_heap s) \<Longrightarrow> flow_func (flow_heap s ! a) = F_customIARender \<Longrightarrow>
     call_func (Suc n) (Some a) node s = flow_customIARender (\<lambda>node s. call_func n (this_next a s) node s) node s"
  "a < length (flow_heap s) \<Longrightarrow> flow_func (flow_heap s ! a) = F_postUpdateRenderData \<Longrightarrow>
     call_func (Suc n) (Some a) node s = flow_postUpdateRenderData (\<lambda>node s. call_func n (this_next a s) node s) node s"
  "a < length (flow_heap s) \<Longrightarrow> flow_func (flow_heap s ! a) = F_postRender \<Longrightarrow>
     call_func (Suc n) (Some a) node s = flow_postRender (\<lambda>node s. call_func n (this_next a s) node s) node s"
  "a < length (flow_heap s) \<Longrightarrow> flow_func (flow_heap s ! a) = F_children \<Longrightarrow>
     call_func (Suc n) (Some a) node s =
       flow_children (\<lambda>node s. call_func n (this_next a s) node s)
         (\<lambda>c s. call_func n (flows s (renderFlag (dat c))) c s) node s"
  "a < length (flow_heap s) \<Longrightarrow> flow_func (flow_heap s ! a) = F_init \<Longrightarrow>
     call_func (Suc n) (Some a) node s = flow_init (call_func n) node s"
  "call_func (Suc n) None node s = throw TypeError"
  by simp_all

declare call_func.simps(2) [simp del]

lemma init_state_fields [simp]:
  "walker (init_state w) = Some w" "g_cullingMask (init_state w) = 0"
  "flows (init_state w) = init_flows" "flow_heap (init_state w) = init_heap"
  "trace (init_state w) = []" "maskStack (init_state w) = []"
  "graphicsPool (init_state w) = []" "graphicsCount (init_state w) = 0"
  by (simp_all add: init_state_def module_state_def)

lemma init_flows_simps [simp]:
  "0 \<le> k \<Longrightarrow> k < 1024 \<Longrightarrow> init_flows k = Some (nat k)"
  by (simp add: init_flows_def FINAL_def)

lemma init_heap_nth' [simp]:
  "0 < a \<Longrightarrow> a < 1024 \<Longrightarrow> init_heap ! a = new_RenderFlow"
  "init_heap ! 0 = \<lparr>flow_func = F_doNothing, flow_next = Some EMPTY_FLOW\<rparr>"
  by (simp_all add: init_heap_nth)

lemmas getFlow_eval = getFlow_def FINAL_def getFlow_loop.simps createFlow_def flag_defs

lemma getFlow_concrete:
  "getFlow 32 h = (Some (length h), h @ [\<lparr>flow_func = F_render, flow_next = Some 0\<rparr>])"
  "getFlow 128 h = (Some (length h), h @ [\<lparr>flow_func = F_children, flow_next = Some 0\<rparr>])"
  "getFlow 2 h = (Some (length h), h @ [\<lparr>flow_func = F_worldTransform, flow_next = Some 0\<rparr>])"
  "getFlow 130 h = (Some (Suc (length h)), h @ [\<lparr>flow_func = F_children, flow_next = Some 0\<rparr>,
      \<lparr>flow_func = F_worldTransform, flow_next = Some (length h)\<rparr>])"
  "getFlow 34 h = (Some (Suc (length h)), h @ [\<lparr>flow_func = F_render, flow_next = Some 0\<rparr>,
      \<lparr>flow_func = F_worldTransform, flow_next = Some (length h)\<rparr>])"
  by (simp_all add: getFlow_eval new_RenderFlow_def EMPTY_FLOW_def)

lemmas run_simps =
  call_func_stage dispatch_def render_def flow_init_def flow_doNothing_def flow_localTransform_def
  flow_worldTransform_def flow_color_def flow_opacity_def flow_updateRenderData_def
  flow_render_def flow_customIARender_def flow_children_def flow_postUpdateRenderData_def
  flow_postRender_def this_next_def invisible_def Let_def children_loop_Cons child_skipped_def
  child_at_dispatch_def commitComp_def commitIA_def assembler_fillBuffers_def
  assembler_updateRenderData_def comp_assembler_def comp_postAssembler_def comp_updateColor_def
  new_RenderFlow_def EMPTY_FLOW_def nth_append getFlow_concrete

lemmas norm_simps =
  upd_def clear_flag_def set_flag_def emit_def worldDirtyFlag_def ok_def throw_def fastSetA_def
  init_state_def module_state_def

lemma RenderFlow_init_state: "RenderFlow_init w module_state = init_state w"
  by (simp add: RenderFlow_init_module init_state_def)

lemma fuel_5: "5 \<le> n \<Longrightarrow> \<exists>m. n = Suc (Suc (Suc (Suc (Suc m))))"
  by (rule exI [of _ "n - 5"]) simp

lemma fuel_9: "9 \<le> n \<Longrightarrow> \<exists>m. n = Suc (Suc (Suc (Suc (Suc (Suc (Suc (Suc (Suc m))))))))"
  by (rule exI [of _ "n - 9"]) simp

lemma three_level_run:
  assumes "renderFlag rd = WORLD_TRANSFORM OR CHILDREN" "opacity rd \<noteq> 0" "\<not> customInvisibleFlag rd"
    and "renderFlag cd = CHILDREN" "opacity cd \<noteq> 0" "\<not> customInvisibleFlag cd"
      "activeInHierarchy cd" "groupIndex cd = 0" "parent cd = Some (nid rd)"
    and "renderFlag gd = RENDER" "opacity gd \<noteq> 0" "\<not> customInvisibleFlag gd"
      "activeInHierarchy gd" "groupIndex gd = 0" "parent gd = Some (nid cd)"
      "renderComponent gd = Some PlainComp"
    and "worldMatDirty w = 0" "parentOpacityDirty w = 0"
  shows "trace_of (render (Suc (Suc (Suc (Suc (Suc (Suc (Suc (Suc (Suc m)))))))))
           (Node rd [Node cd [Node gd gcs]]) (init_state w)) =
         Some (Inr [CalculWorldMatrix (nid rd), MulMat (nid cd) (nid rd), MulMat (nid gd) (nid cd),
                 CommitComp (nid gd) ComponentAssembler (js_shl1 (groupIndex rd)),
                 ExtFillBuffers OwnAssembler (nid gd)])"
  using assms by (simp add: run_simps norm_simps flag_defs trace_of_def)

lemma three_level_run_claimed:
  assumes "renderFlag rd = WORLD_TRANSFORM OR CHILDREN" "opacity rd \<noteq> 0" "\<not> customInvisibleFlag rd"
    and "renderFlag cd = 0" "opacity cd \<noteq> 0" "\<not> customInvisibleFlag cd"
      "activeInHierarchy cd" "groupIndex cd = 0" "parent cd = Some (nid rd)"
    and "worldMatDirty w = 0" "parentOpacityDirty w = 0"
  shows "trace_of (render (Suc (Suc (Suc (Suc (Suc m)))))
           (Node rd [Node cd gs]) (init_state w)) =
         Some (Inr [CalculWorldMatrix (nid rd), MulMat (nid cd) (nid rd)])"
  using assms by (simp add: run_simps norm_simps flag_defs trace_of_def)

text \<open>
  Claim C2, as amended. Take a tree root, child, grandchild, all visible, child and
  grandchild active with group index 0 and their parents set, the root's mask
  \<open>WORLD_TRANSFORM | CHILDREN\<close>, the grandchild's mask \<open>RENDER\<close> and the grandchild
  holding an ordinary render component; take the state right after \<open>RenderFlow.init\<close>
  with both dirty counters of the walker at 0, and a call depth of at least 9.
  If the child's mask is \<open>CHILDREN\<close>, \<open>render(root)\<close> returns and the calls it made are,
  in order: the root's world matrix, the child's, the grandchild's, and one submission,
  of the grandchild's component with culling mask \<open>1 << root.groupIndex\<close>.
  If the child's mask is 0, as the claim has it, \<open>render(root)\<close> returns after the root's
  and the child's world matrix: the child's chain has no Children stage, so the
  grandchild is not visited and nothing is submitted.
\<close>

theorem three_level_render:
  assumes "renderFlag rd = WORLD_TRANSFORM OR CHILDREN" and "opacity rd \<noteq> 0"
    and "\<not> customInvisibleFlag rd"
    and "opacity cd \<noteq> 0" and "\<not> customInvisibleFlag cd" and "activeInHierarchy cd"
    and "groupIndex cd = 0" and "parent cd = Some (nid rd)"
    and "renderFlag gd = RENDER" and "opacity gd \<noteq> 0" and "\<not> customInvisibleFlag gd"
    and "activeInHierarchy gd" and "groupIndex gd = 0" and "parent gd = Some (nid cd)"
    and "renderComponent gd = Some PlainComp"
    and "worldMatDirty w = 0" and "parentOpacityDirty w = 0"
    and "9 \<le> n"
  shows "(renderFlag cd = CHILDREN \<longrightarrow>
            trace_of (render n (Node rd [Node cd [Node gd gcs]]) (RenderFlow_init w module_state)) =
            Some (Inr [CalculWorldMatrix (nid rd), MulMat (nid cd) (nid rd),
                       MulMat (nid gd) (nid cd),
                       CommitComp (nid gd) ComponentAssembler (js_shl1 (groupIndex rd)),
                       ExtFillBuffers OwnAssembler (nid gd)])) \<and>
         (renderFlag cd = 0 \<longrightarrow>
            trace_of (render n (Node rd [Node cd [Node gd gcs]]) (RenderFlow_init w module_state)) =
            Some (Inr [CalculWorldMatrix (nid rd), MulMat (nid cd) (nid rd)]))"
proof (intro conjI impI)
  assume c: "renderFlag cd = CHILDREN"
  from fuel_9 [OF assms(18)] obtain m where
    n: "n = Suc (Suc (Suc (Suc (Suc (Suc (Suc (Suc (Suc m))))))))" by blast
  show "trace_of (render n (Node rd [Node cd [Node gd gcs]]) (RenderFlow_init w module_state)) =
        Some (Inr [CalculWorldMatrix (nid rd), MulMat (nid cd) (nid rd), MulMat (nid gd) (nid cd),
                   CommitComp (nid gd) ComponentAssembler (js_shl1 (groupIndex rd)),
                   ExtFillBuffers OwnAssembler (nid gd)])"
    unfolding n RenderFlow_init_state
    by (rule three_level_run [OF assms(1-3) c assms(4-17)])

next
  assume c: "renderFlag cd = 0"
  from assms(18) have "5 \<le> n" by simp
  from fuel_5 [OF this] obtain m where n: "n = Suc (Suc (Suc (Suc (Suc m))))" by blast
  show "trace_of (render n (Node rd [Node cd [Node gd gcs]]) (RenderFlow_init w module_state)) =
        Some (Inr [CalculWorldMatrix (nid rd), MulMat (nid cd) (nid rd)])"
    unfolding n RenderFlow_init_state
    by (rule three_level_run_claimed [OF assms(1-3) c assms(4-8) assms(16,17)])
qed

lemma three_level_tree_Node:
  "three_level_tree f =
     Node (dat (example_node 1 None (WORLD_TRANSFORM OR CHILDREN) None []))
       [Node (dat (example_node 2 (Some 1) f None []))
          [Node (dat (example_node 3 (Some 2) RENDER (Some PlainComp) [])) []]]"
  by (simp add: three_level_tree_def example_node_def)

theorem three_level_render_witness:
  "trace_of (render 9 (three_level_tree CHILDREN) (RenderFlow_init example_walker module_state)) =
     Some (Inr [CalculWorldMatrix 1, MulMat 2 1, MulMat 3 2,
                CommitComp 3 ComponentAssembler 1, ExtFillBuffers OwnAssembler 3])"
proof -
  have "renderFlag (dat (example_node 2 (Some 1) CHILDREN None [])) = CHILDREN \<longrightarrow>
      trace_of (render 9 (three_level_tree CHILDREN) (RenderFlow_init example_walker module_state)) =
      Some (Inr [CalculWorldMatrix (nid (dat (example_node 1 None (WORLD_TRANSFORM OR CHILDREN) None []))),
                 MulMat (nid (dat (example_node 2 (Some 1) CHILDREN None [])))
                   (nid (dat (example_node 1 None (WORLD_TRANSFORM OR CHILDREN) None []))),
                 MulMat (nid (dat (example_node 3 (Some 2) RENDER (Some PlainComp) [])))
                   (nid (dat (example_node 2 (Some 1) CHILDREN None []))),
                 CommitComp (nid (dat (example_node 3 (Some 2) RENDER (Some PlainComp) [])))
                   ComponentAssembler
                   (js_shl1 (groupIndex (dat (example_node 1 None (WORLD_TRANSFORM OR CHILDREN) None [])))),
                 ExtFillBuffers OwnAssembler
                   (nid (dat (example_node 3 (Some 2) RENDER (Some PlainComp) [])))])"
    unfolding three_level_tree_Node
    by (rule three_level_render [THEN conjunct1])
       (simp_all add: example_node_def example_walker_def)
  then show ?thesis
    by (simp add: example_node_def js_shl1_def)
qed

theorem three_level_render_counterexample:
  "trace_of (render 9 (three_level_tree 0) (RenderFlow_init example_walker module_state)) =
     Some (Inr [CalculWorldMatrix 1, MulMat 2 1])"
  unfolding three_level_tree_Node RenderFlow_init_state
  by (simp add: run_simps norm_simps flag_defs trace_of_def example_node_def example_walker_def
        eval_nat_numeral js_shl1_def)

lemma markForRender_flags:
  "renderFlag (dat (markForRender True True node)) = renderFlag (dat node) OR mask_flags"
  by (simp add: markForRender_def mask_flags_def)

lemma getFlow_932:
  "getFlow 932 h = (Some (length h + 4), h @
     [\<lparr>flow_func = F_postRender, flow_next = Some 0\<rparr>,
      \<lparr>flow_func = F_postUpdateRenderData, flow_next = Some (length h)\<rparr>,
      \<lparr>flow_func = F_children, flow_next = Some (length h + 1)\<rparr>,
      \<lparr>flow_func = F_render, flow_next = Some (length h + 2)\<rparr>,
      \<lparr>flow_func = F_updateRenderData, flow_next = Some (length h + 3)\<rparr>])"
  by (simp add: getFlow_eval new_RenderFlow_def EMPTY_FLOW_def)

lemmas mask_simps =
  maskFront_fillBuffers_def maskEnd_fillBuffers_def maskFront_updateRenderData_def
  maskEnd_updateRenderData_def pushMask_def popMask_def getGraphics_def set_mask_def

lemma fuel_13:
  "13 \<le> n \<Longrightarrow>
     \<exists>m. n = Suc (Suc (Suc (Suc (Suc (Suc (Suc (Suc (Suc (Suc (Suc (Suc (Suc m))))))))))))"
  by (rule exI [of _ "n - 13"]) simp

lemma nested_masks_run:
  assumes "renderFlag sd = CHILDREN" "opacity sd \<noteq> 0" "\<not> customInvisibleFlag sd"
    and "renderFlag ad = mask_flags OR CHILDREN" "opacity ad \<noteq> 0" "\<not> customInvisibleFlag ad"
      "activeInHierarchy ad" "renderComponent ad = Some (MaskComp ma)" "renderable_mask ma"
    and "renderFlag bd = mask_flags OR CHILDREN" "opacity bd \<noteq> 0" "\<not> customInvisibleFlag bd"
      "activeInHierarchy bd" "renderComponent bd = Some (MaskComp mb)" "renderable_mask mb"
    and "renderFlag cd = RENDER" "opacity cd \<noteq> 0" "\<not> customInvisibleFlag cd"
      "activeInHierarchy cd" "renderComponent cd = Some PlainComp"
    and "worldMatDirty w = 0" "parentOpacityDirty w = 0"
  shows "sink_trace_of
     (render (Suc (Suc (Suc (Suc (Suc (Suc (Suc (Suc (Suc (Suc (Suc (Suc (Suc m)))))))))))))
        (Node sd [Node ad [Node bd [Node cd ccs]]]) (init_state w)) =
     Some (Inr [Commit (nid ad) MaskFrontAssembler, Push (nid ad),
                Commit (nid bd) MaskFrontAssembler, Push (nid bd),
                Commit (nid cd) ComponentAssembler,
                Commit (nid bd) MaskEndAssembler, Pop (Some (nid bd)),
                Commit (nid ad) MaskEndAssembler, Pop (Some (nid ad))])"
  using assms
  by (cases "mtype ma"; cases "mtype mb")
     (simp_all add: run_simps norm_simps flag_defs mask_simps mask_flags_def getFlow_932
        renderable_mask_def sink_trace_of_def trace_of_def)

text \<open>
  Claim C8, as amended. Take a scene holding a mask node A, which holds a mask node B, which holds a
  node C with an ordinary render component; all visible and active, the scene's mask
  \<open>CHILDREN\<close>, the masks of A and B the bits \<open>Mask.markForRender\<close> sets together with
  \<open>CHILDREN\<close>, the mask of C \<open>RENDER\<close>, and both mask components in a state their
  assemblers can draw (an image stencil has its sprite frame, a rectangle or ellipse its
  front material). After \<open>RenderFlow.init\<close>, with the walker's dirty counters at 0 and a
  call depth of at least 13, \<open>render(scene)\<close> returns, and the submissions to the sink
  and the calls of the stencil manager are, in order: A submitted with the front
  assembler (its Render stage), A pushed, B submitted with the front assembler, B
  pushed, C submitted, B submitted with the end assembler (its PostRender stage), B
  popped, A submitted with the end assembler, A popped. Without the masks' own
  submissions that is push A, push B, submit C, pop B, pop A.
\<close>

theorem nested_masks_push_pop:
  assumes "renderFlag sd = CHILDREN" and "opacity sd \<noteq> 0" and "\<not> customInvisibleFlag sd"
    and "renderFlag ad = mask_flags OR CHILDREN" and "opacity ad \<noteq> 0"
    and "\<not> customInvisibleFlag ad" and "activeInHierarchy ad"
    and "renderComponent ad = Some (MaskComp ma)" and "renderable_mask ma"
    and "renderFlag bd = mask_flags OR CHILDREN" and "opacity bd \<noteq> 0"
    and "\<not> customInvisibleFlag bd" and "activeInHierarchy bd"
    and "renderComponent bd = Some (MaskComp mb)" and "renderable_mask mb"
    and "renderFlag cd = RENDER" and "opacity cd \<noteq> 0" and "\<not> customInvisibleFlag cd"
    and "activeInHierarchy cd" and "renderComponent cd = Some PlainComp"
    and "worldMatDirty w = 0" and "parentOpacityDirty w = 0"
    and "13 \<le> n"
  shows "sink_trace_of (render n (Node sd [Node ad [Node bd [Node cd ccs]]])
                          (RenderFlow_init w module_state)) =
         Some (Inr [Commit (nid ad) MaskFrontAssembler, Push (nid ad),
                    Commit (nid bd) MaskFrontAssembler, Push (nid bd),
                    Commit (nid cd) ComponentAssembler,
                    Commit (nid bd) MaskEndAssembler, Pop (Some (nid bd)),
                    Commit (nid ad) MaskEndAssembler, Pop (Some (nid ad))]) \<and>
         filter stencil_or_content
           [Commit (nid ad) MaskFrontAssembler, Push (nid ad),
            Commit (nid bd) MaskFrontAssembler, Push (nid bd),
            Commit (nid cd) ComponentAssembler,
            Commit (nid bd) MaskEndAssembler, Pop (Some (nid bd)),
            Commit (nid ad) MaskEndAssembler, Pop (Some (nid ad))] =
           [Push (nid ad), Push (nid bd), Commit (nid cd) ComponentAssembler,
            Pop (Some (nid bd)), Pop (Some (nid ad))]"
proof
  from fuel_13 [OF assms(23)] obtain m where
    n: "n = Suc (Suc (Suc (Suc (Suc (Suc (Suc (Suc (Suc (Suc (Suc (Suc (Suc m))))))))))))"
    by blast
  show "sink_trace_of (render n (Node sd [Node ad [Node bd [Node cd ccs]]])
                          (RenderFlow_init w module_state)) =
         Some (Inr [Commit (nid ad) MaskFrontAssembler, Push (nid ad),
                    Commit (nid bd) MaskFrontAssembler, Push (nid bd),
                    Commit (nid cd) ComponentAssembler,
                    Commit (nid bd) MaskEndAssembler, Pop (Some (nid bd)),
                    Commit (nid ad) MaskEndAssembler, Pop (Some (nid ad))])"
    unfolding n RenderFlow_init_state
    by (rule nested_masks_run [OF assms(1-22)])
qed simp

lemma nested_mask_scene_Node:
  "nested_mask_scene =
     Node (dat (example_node 1 None CHILDREN None []))
       [Node (dat (example_node 2 (Some 1) (mask_flags OR CHILDREN) (Some (MaskComp rect_mask)) []))
          [Node (dat (example_node 3 (Some 2) (mask_flags OR CHILDREN) (Some (MaskComp image_mask)) []))
             [Node (dat (example_node 4 (Some 3) RENDER (Some PlainComp) [])) []]]]"
  by (simp add: nested_mask_scene_def example_node_def)

theorem nested_masks_push_pop_witness:
  "sink_trace_of (render 13 nested_mask_scene (RenderFlow_init example_walker module_state)) =
     Some (Inr [Commit 2 MaskFrontAssembler, Push 2, Commit 3 MaskFrontAssembler, Push 3,
                Commit 4 ComponentAssembler,
                Commit 3 MaskEndAssembler, Pop (Some 3), Commit 2 MaskEndAssembler, Pop (Some 2)])"
proof -
  have "sink_trace_of (render 13 nested_mask_scene (RenderFlow_init example_walker module_state)) =
     Some (Inr [Commit (nid (dat (example_node 2 (Some 1) (mask_flags OR CHILDREN) (Some (MaskComp rect_mask)) [])))
                  MaskFrontAssembler,
                Push (nid (dat (example_node 2 (Some 1) (mask_flags OR CHILDREN) (Some (MaskComp rect_mask)) []))),
                Commit (nid (dat (example_node 3 (Some 2) (mask_flags OR CHILDREN) (Some (MaskComp image_mask)) [])))
                  MaskFrontAssembler,
                Push (nid (dat (example_node 3 (Some 2) (mask_flags OR CHILDREN) (Some (MaskComp image_mask)) []))),
                Commit (nid (dat (example_node 4 (Some 3) RENDER (Some PlainComp) []))) ComponentAssembler,
                Commit (nid (dat (example_node 3 (Some 2) (mask_flags OR CHILDREN) (Some (MaskComp image_mask)) [])))
                  MaskEndAssembler,
                Pop (Some (nid (dat (example_node 3 (Some 2) (mask_flags OR CHILDREN) (Some (MaskComp image_mask)) [])))),
                Commit (nid (dat (example_node 2 (Some 1) (mask_flags OR CHILDREN) (Some (MaskComp rect_mask)) [])))
                  MaskEndAssembler,
                Pop (Some (nid (dat (example_node 2 (Some 1) (mask_flags OR CHILDREN) (Some (MaskComp rect_mask)) []))))])"
    unfolding nested_mask_scene_Node
    by (rule nested_masks_push_pop [where ma = rect_mask and mb = image_mask, THEN conjunct1])
       (simp_all add: example_node_def example_walker_def rect_mask_def image_mask_def
          renderable_mask_def)
  then show ?thesis
    by (simp add: example_node_def)
qed

text \<open>
  Claim C8 as stated fails when a mask is in the state its assemblers call invalid: an
  image stencil without a sprite frame. \<open>CCMask\<close>'s setter of \<open>spriteFrame\<close> leaves the
  node's mask as it is when the frame is set to null, so the node keeps its Render and
  PostRender stages, and both \<open>fillBuffers\<close> then skip the stencil manager. With such an
  inner mask B the sequence is push A, submit C, pop A.
\<close>

theorem nested_masks_frameless_counterexample:
  "sink_trace_of (render 13 frameless_mask_scene (RenderFlow_init example_walker module_state)) =
     Some (Inr [Commit 2 MaskFrontAssembler, Push 2, Commit 3 MaskFrontAssembler,
                Commit 4 ComponentAssembler,
                Commit 3 MaskEndAssembler, Commit 2 MaskEndAssembler, Pop (Some 2)]) \<and>
   filter stencil_or_content
     [Commit 2 MaskFrontAssembler, Push 2, Commit 3 MaskFrontAssembler,
      Commit 4 ComponentAssembler,
      Commit 3 MaskEndAssembler, Commit 2 MaskEndAssembler, Pop (Some 2)] =
     [Push 2, Commit 4 ComponentAssembler, Pop (Some 2)] \<and>
   [Push 2, Commit 4 ComponentAssembler, Pop (Some 2)] \<noteq>
     [Push 2, Push 3, Commit 4 ComponentAssembler, Pop (Some 3), Pop (Some 2)]"
  unfolding RenderFlow_init_state
  by (simp add: run_simps norm_simps flag_defs mask_simps mask_flags_def getFlow_932
        sink_trace_of_def trace_of_def frameless_mask_scene_def frameless_mask_def rect_mask_def
        example_node_def example_walker_def eval_nat_numeral js_shl1_def)

lemma compiled_extends:
  assumes "cache_extends s s'" and "compiled s k a"
  shows "compiled s' k a \<and> (\<forall>fs. chain_from (flow_heap s) a fs \<longrightarrow> chain_from (flow_heap s') a fs)"
proof -
  from assms(1) obtain h where h: "flow_heap s' = flow_heap s @ h"
    by (auto simp: cache_extends_def)
  from assms have "flows s' k = Some a" by (simp add: cache_extends_def)
  moreover from assms(2) have "a < length (flow_heap s)" "flow_func (flow_heap s ! a) \<noteq> F_init"
    by (simp_all add: compiled_def)
  ultimately have "compiled s' k a"
    by (simp add: compiled_def h nth_append)
  then show ?thesis
    by (simp add: h chain_from_append)
qed

lemma first_dispatch:
  assumes wf: "wf_cache s" and m: "1 \<le> renderFlag (dat node)"
    and slot: "flows s (renderFlag (dat node)) = Some p"
    and ph: "flow_func (flow_heap s ! p) = F_init"
  shows "\<exists>r h. getFlow (renderFlag (dat node)) (flow_heap s) = (Some r, flow_heap s @ h) \<and>
           chain_from (flow_heap s @ h) r (expected_stages (renderFlag (dat node))) \<and>
           compiled (s\<lparr>flows := (flows s)(renderFlag (dat node) \<mapsto> r),
                       flow_heap := flow_heap s @ h\<rparr>) (renderFlag (dat node)) r \<and>
           dispatch (Suc n) node s =
             call_func n (Some r) node
               (s\<lparr>flows := (flows s)(renderFlag (dat node) \<mapsto> r), flow_heap := flow_heap s @ h\<rparr>) \<and>
           (\<forall>node' s'. dispatch (Suc n) node s = Some (Inr (node', s')) \<longrightarrow>
              wf_cache s' \<and> compiled s' (renderFlag (dat node)) r \<and>
              chain_from (flow_heap s') r (expected_stages (renderFlag (dat node))))"
proof -
  let ?m = "renderFlag (dat node)"
  from wf slot have m': "0 \<le> ?m" "?m < FINAL" and p: "p < length (flow_heap s)"
    and gh: "good_heap (flow_heap s)"
    by (auto simp: wf_cache_def)
  from gh have ne: "flow_heap s \<noteq> []" by (simp add: good_heap_def)
  from getFlow_chain [OF m' ne] obtain flow' h where
    g: "getFlow ?m (flow_heap s) = (flow', flow_heap s @ h)"
    and ch: "chain_from (flow_heap s @ h) (ref_or_empty flow') (expected_stages ?m)"
    and fe: "flow' = None \<longleftrightarrow> expected_stages ?m = []"
    by blast
  from m have "0 < ?m" by simp
  from expected_stages_nonempty [OF this m'(2)] fe obtain r where r: "flow' = Some r"
    by (cases flow') auto
  from getFlow_good [OF m' gh] g r
  have gh': "good_heap (flow_heap s @ h)" and lv: "live_ref (flow_heap s @ h) (Some r)"
    by auto
  let ?s1 = "s\<lparr>flows := (flows s)(?m \<mapsto> r), flow_heap := flow_heap s @ h\<rparr>"
  have c1: "compiled ?s1 ?m r"
    using lv by (simp add: compiled_def live_ref_def)
  have d: "dispatch (Suc n) node s = call_func n (Some r) node ?s1"
    using slot p ph g r by (simp add: dispatch_def call_func_stage flow_init_def)
  have w1: "wf_cache ?s1"
    unfolding wf_cache_def
  proof (intro conjI allI impI)
    show "good_heap (flow_heap ?s1)" using gh' by simp
  next
    fix k b
    assume f: "flows ?s1 k = Some b"
    have "0 \<le> k \<and> k < FINAL \<and> b < length (flow_heap ?s1)"
    proof (cases "k = ?m")
      case True
      with f have "b = r" by simp
      with lv have "b < length (flow_heap s @ h)" by (simp add: live_ref_def)
      with True m' show ?thesis by simp
    next
      case False
      with f have "flows s k = Some b" by simp
      with wf have "0 \<le> k \<and> k < FINAL \<and> b < length (flow_heap s)"
        by (simp add: wf_cache_def)
      then show ?thesis by simp
    qed
    then show "0 \<le> k" and "k < FINAL" and "b < length (flow_heap ?s1)" by simp_all
  qed
  have ch1: "chain_from (flow_heap ?s1) r (expected_stages ?m)"
    using ch r by (simp add: ref_or_empty_def)
  have after: "\<forall>node' s'. dispatch (Suc n) node s = Some (Inr (node', s')) \<longrightarrow>
      wf_cache s' \<and> compiled s' ?m r \<and> chain_from (flow_heap s') r (expected_stages ?m)"
  proof (intro allI impI)
    fix node' s'
    assume "dispatch (Suc n) node s = Some (Inr (node', s'))"
    with d have run: "call_func n (Some r) node ?s1 = Some (Inr (node', s'))" by simp
    have "entry_ok (Some r) node ?s1"
      using lv by (simp add: entry_ok_def live_ref_def)
    from call_func_cache [OF w1 this run]
    have "wf_cache s'" and "cache_extends ?s1 s'" by simp_all
    with compiled_extends [OF _ c1] ch1
    show "wf_cache s' \<and> compiled s' ?m r \<and> chain_from (flow_heap s') r (expected_stages ?m)"
      by blast
  qed
  from g r ch c1 d after show ?thesis
    by (auto simp: ref_or_empty_def)
qed

lemma FINAL_1024: "FINAL = 1024"
  by (simp add: FINAL_def)

lemma RenderFlow_init_fields:
  "walker (RenderFlow_init w s0) = Some w"
  "flow_heap (RenderFlow_init w s0) = flow_heap s0 @ replicate 1023 new_RenderFlow"
  "flows (RenderFlow_init w s0) k =
     (if 1 \<le> k \<and> k < FINAL then Some (length (flow_heap s0) + nat (k - 1))
      else if k = 0 then Some EMPTY_FLOW else flows s0 k)"
  "g_cullingMask (RenderFlow_init w s0) = g_cullingMask s0"
  "trace (RenderFlow_init w s0) = trace s0"
  "maskStack (RenderFlow_init w s0) = maskStack s0"
  by (simp_all add: RenderFlow_init_def Let_def init_loop_closed FINAL_def)

lemma good_heap_placeholders:
  assumes "good_heap h"
  shows "good_heap (h @ replicate n new_RenderFlow)"
  unfolding good_heap_def
proof (intro conjI allI impI)
  from assms show "h @ replicate n new_RenderFlow \<noteq> []" by (simp add: good_heap_def)
  from assms show "(h @ replicate n new_RenderFlow) ! EMPTY_FLOW =
      \<lparr>flow_func = F_doNothing, flow_next = Some EMPTY_FLOW\<rparr>"
    by (simp add: good_heap_def nth_append EMPTY_FLOW_def)
next
  fix a b
  assume a: "a < length (h @ replicate n new_RenderFlow)"
    and b: "flow_next ((h @ replicate n new_RenderFlow) ! a) = Some b"
  have "a < length h"
  proof (rule ccontr)
    assume "\<not> a < length h"
    with a have "(h @ replicate n new_RenderFlow) ! a = new_RenderFlow"
      by (simp add: nth_append)
    with b show False by (simp add: new_RenderFlow_def)
  qed
  with b have "flow_next (h ! a) = Some b" by (simp add: nth_append)
  with assms \<open>a < length h\<close> have "b < length h \<and> flow_func (h ! b) \<noteq> F_init"
    by (simp add: good_heap_def)
  then show "b < length (h @ replicate n new_RenderFlow)"
    and "flow_func ((h @ replicate n new_RenderFlow) ! b) \<noteq> F_init"
    by (simp_all add: nth_append)
qed

lemma wf_cache_reinit:
  assumes "wf_cache s0"
  shows "wf_cache (RenderFlow_init w s0)"
  unfolding wf_cache_def
proof (intro conjI allI impI)
  from assms show "good_heap (flow_heap (RenderFlow_init w s0))"
    by (simp add: RenderFlow_init_fields wf_cache_def good_heap_placeholders)
next
  fix k a
  assume f: "flows (RenderFlow_init w s0) k = Some a"
  from assms have ne: "flow_heap s0 \<noteq> []" by (simp add: wf_cache_def good_heap_def)
  have "0 \<le> k \<and> k < FINAL \<and> a < length (flow_heap (RenderFlow_init w s0))"
  proof (cases "1 \<le> k \<and> k < FINAL")
    case True
    with f have "a = length (flow_heap s0) + nat (k - 1)"
      by (simp add: RenderFlow_init_fields)
    moreover from True have "nat (k - 1) < 1023" unfolding FINAL_1024 by arith
    ultimately show ?thesis using True by (simp add: RenderFlow_init_fields)
  next
    case False
    show ?thesis
    proof (cases "k = 0")
      case True
      with f False have "a = EMPTY_FLOW" by (simp add: RenderFlow_init_fields)
      with True ne show ?thesis
        by (simp add: RenderFlow_init_fields EMPTY_FLOW_def FINAL_def)
    next
      case k: False
      with f False have "flows s0 k = Some a" by (simp add: RenderFlow_init_fields)
      with assms have "0 \<le> k \<and> k < FINAL" by (simp add: wf_cache_def)
      with False k show ?thesis by simp
    qed
  qed
  then show "0 \<le> k" and "k < FINAL" and "a < length (flow_heap (RenderFlow_init w s0))"
    by simp_all
qed

lemma wf_cache_module: "wf_cache module_state"
  by (simp add: wf_cache_def good_heap_def module_state_def module_heap_eq EMPTY_FLOW_def)

lemma init_slots:
  assumes "wf_cache s0"
  shows "walker (RenderFlow_init w s0) = Some w"
    and "flows (RenderFlow_init w s0) 0 = Some EMPTY_FLOW"
    and "flow_heap (RenderFlow_init w s0) ! EMPTY_FLOW =
           \<lparr>flow_func = F_doNothing, flow_next = Some EMPTY_FLOW\<rparr>"
    and "flow_heap (RenderFlow_init w s0) = flow_heap s0 @ replicate 1023 new_RenderFlow"
    and "1 \<le> m \<Longrightarrow> m < FINAL \<Longrightarrow>
           flows (RenderFlow_init w s0) m = Some (length (flow_heap s0) + nat (m - 1)) \<and>
           length (flow_heap s0) + nat (m - 1) < length (flow_heap (RenderFlow_init w s0)) \<and>
           flow_heap (RenderFlow_init w s0) ! (length (flow_heap s0) + nat (m - 1)) = new_RenderFlow"
proof -
  from assms have gh: "good_heap (flow_heap s0)" by (simp add: wf_cache_def)
  show "walker (RenderFlow_init w s0) = Some w" by (simp add: RenderFlow_init_fields)
  show "flows (RenderFlow_init w s0) 0 = Some EMPTY_FLOW"
    by (simp add: RenderFlow_init_fields)
  show "flow_heap (RenderFlow_init w s0) ! EMPTY_FLOW =
           \<lparr>flow_func = F_doNothing, flow_next = Some EMPTY_FLOW\<rparr>"
    using gh by (simp add: RenderFlow_init_fields good_heap_def nth_append EMPTY_FLOW_def)
  show "flow_heap (RenderFlow_init w s0) = flow_heap s0 @ replicate 1023 new_RenderFlow"
    by (simp add: RenderFlow_init_fields)
  assume m: "1 \<le> m" "m < FINAL"
  then have "nat (m - 1) < 1023" unfolding FINAL_1024 by arith
  with m show "flows (RenderFlow_init w s0) m = Some (length (flow_heap s0) + nat (m - 1)) \<and>
           length (flow_heap s0) + nat (m - 1) < length (flow_heap (RenderFlow_init w s0)) \<and>
           flow_heap (RenderFlow_init w s0) ! (length (flow_heap s0) + nat (m - 1)) = new_RenderFlow"
    by (simp add: RenderFlow_init_fields nth_append)
qed

text \<open>
  Claim C3. The state of the freshly loaded module is well-formed, and in every
  well-formed state \<open>RenderFlow.init(walker)\<close> installs the walker, puts \<open>EMPTY_FLOW\<close>,
  the no-op whose next is itself, into slot 0 of the cache and a new placeholder into
  every slot \<open>1 \<le> m < FINAL\<close>: 1023 objects appended to the heap, one for each slot and
  no two slots sharing one, whatever the slots held before; the objects that were on the
  heap are left as they were, and the state is well-formed again.
  In every well-formed cache state: the first dispatch of a node through a placeholder
  compiles the chain of the node's mask (the stages of \<open>expected_stages\<close>, on new
  objects), stores its head in the slot and calls it on the same node, and when that
  call returns the slot still holds that head; whatever \<open>dispatch\<close> or \<open>render\<close> does
  when it returns, the state stays well-formed, every compiled slot holds the object it
  held and the chain of that object is unchanged; and two nodes with the same mask are
  dispatched to the same object of a compiled slot, whose function is not \<open>init\<close>, so
  nothing is compiled again.
\<close>

theorem cache_compiles_each_mask_once:
  "wf_cache module_state \<and>
   (wf_cache s0 \<longrightarrow>
      walker (RenderFlow_init w s0) = Some w \<and>
      flows (RenderFlow_init w s0) 0 = Some EMPTY_FLOW \<and>
      flow_heap (RenderFlow_init w s0) ! EMPTY_FLOW =
        \<lparr>flow_func = F_doNothing, flow_next = Some EMPTY_FLOW\<rparr> \<and>
      wf_cache (RenderFlow_init w s0) \<and>
      flow_heap (RenderFlow_init w s0) = flow_heap s0 @ replicate 1023 new_RenderFlow \<and>
      (\<forall>m. 1 \<le> m \<and> m < FINAL \<longrightarrow>
         (\<exists>p. flows (RenderFlow_init w s0) m = Some p \<and>
              length (flow_heap s0) \<le> p \<and>
              p < length (flow_heap (RenderFlow_init w s0)) \<and>
              flow_heap (RenderFlow_init w s0) ! p = new_RenderFlow \<and>
              (\<forall>m'. 1 \<le> m' \<and> m' < FINAL \<and> m' \<noteq> m \<longrightarrow>
                 flows (RenderFlow_init w s0) m' \<noteq> Some p)))) \<and>
   (wf_cache s \<and> 1 \<le> renderFlag (dat node) \<and> flows s (renderFlag (dat node)) = Some p \<and>
    flow_func (flow_heap s ! p) = F_init \<longrightarrow>
      (\<exists>r h. getFlow (renderFlag (dat node)) (flow_heap s) = (Some r, flow_heap s @ h) \<and>
         chain_from (flow_heap s @ h) r (expected_stages (renderFlag (dat node))) \<and>
         compiled (s\<lparr>flows := (flows s)(renderFlag (dat node) \<mapsto> r),
                     flow_heap := flow_heap s @ h\<rparr>) (renderFlag (dat node)) r \<and>
         dispatch (Suc n) node s =
           call_func n (Some r) node
             (s\<lparr>flows := (flows s)(renderFlag (dat node) \<mapsto> r), flow_heap := flow_heap s @ h\<rparr>) \<and>
         (\<forall>node' s'. dispatch (Suc n) node s = Some (Inr (node', s')) \<longrightarrow>
            wf_cache s' \<and> compiled s' (renderFlag (dat node)) r \<and>
            chain_from (flow_heap s') r (expected_stages (renderFlag (dat node)))))) \<and>
   (wf_cache s \<and> (dispatch n node s = Some (Inr (node', s')) \<or>
                  render n node s = Some (Inr (node', s'))) \<longrightarrow>
      wf_cache s' \<and>
      (\<forall>k a. compiled s k a \<longrightarrow>
         compiled s' k a \<and>
         (\<forall>fs. chain_from (flow_heap s) a fs \<longrightarrow> chain_from (flow_heap s') a fs))) \<and>
   (compiled s (renderFlag (dat node1)) a \<and> renderFlag (dat node2) = renderFlag (dat node1) \<longrightarrow>
      dispatch n node1 s = call_func n (Some a) node1 s \<and>
      dispatch n node2 s = call_func n (Some a) node2 s \<and>
      flow_func (flow_heap s ! a) \<noteq> F_init)"
proof (intro conjI impI allI)
  show "wf_cache module_state" by (rule wf_cache_module)
next
  assume w0: "wf_cache s0"
  show "walker (RenderFlow_init w s0) = Some w"
    and "flows (RenderFlow_init w s0) 0 = Some EMPTY_FLOW"
    and "flow_heap (RenderFlow_init w s0) ! EMPTY_FLOW =
      \<lparr>flow_func = F_doNothing, flow_next = Some EMPTY_FLOW\<rparr>"
    and "flow_heap (RenderFlow_init w s0) = flow_heap s0 @ replicate 1023 new_RenderFlow"
    by (rule init_slots [OF w0])+
  show "wf_cache (RenderFlow_init w s0)" by (rule wf_cache_reinit [OF w0])
  fix m :: int
  assume m: "1 \<le> m \<and> m < FINAL"
  let ?p = "length (flow_heap s0) + nat (m - 1)"
  have "\<forall>m'. 1 \<le> m' \<and> m' < FINAL \<and> m' \<noteq> m \<longrightarrow> flows (RenderFlow_init w s0) m' \<noteq> Some ?p"
  proof (intro allI impI)
    fix m' :: int
    assume m': "1 \<le> m' \<and> m' < FINAL \<and> m' \<noteq> m"
    then have "flows (RenderFlow_init w s0) m' = Some (length (flow_heap s0) + nat (m' - 1))"
      using init_slots(5) [OF w0, of m' w] by blast
    moreover from m m' have "nat (m' - 1) \<noteq> nat (m - 1)" by arith
    ultimately show "flows (RenderFlow_init w s0) m' \<noteq> Some ?p" by simp
  qed
  with init_slots(5) [OF w0, of m w] m
  show "\<exists>p. flows (RenderFlow_init w s0) m = Some p \<and>
              length (flow_heap s0) \<le> p \<and>
              p < length (flow_heap (RenderFlow_init w s0)) \<and>
              flow_heap (RenderFlow_init w s0) ! p = new_RenderFlow \<and>
              (\<forall>m'. 1 \<le> m' \<and> m' < FINAL \<and> m' \<noteq> m \<longrightarrow>
                 flows (RenderFlow_init w s0) m' \<noteq> Some p)"
    by (intro exI [of _ ?p]) simp
next
  assume "wf_cache s \<and> 1 \<le> renderFlag (dat node) \<and> flows s (renderFlag (dat node)) = Some p \<and>
    flow_func (flow_heap s ! p) = F_init"
  then show "\<exists>r h. getFlow (renderFlag (dat node)) (flow_heap s) = (Some r, flow_heap s @ h) \<and>
         chain_from (flow_heap s @ h) r (expected_stages (renderFlag (dat node))) \<and>
         compiled (s\<lparr>flows := (flows s)(renderFlag (dat node) \<mapsto> r),
                     flow_heap := flow_heap s @ h\<rparr>) (renderFlag (dat node)) r \<and>
         dispatch (Suc n) node s =
           call_func n (Some r) node
             (s\<lparr>flows := (flows s)(renderFlag (dat node) \<mapsto> r), flow_heap := flow_heap s @ h\<rparr>) \<and>
         (\<forall>node' s'. dispatch (Suc n) node s = Some (Inr (node', s')) \<longrightarrow>
            wf_cache s' \<and> compiled s' (renderFlag (dat node)) r \<and>
            chain_from (flow_heap s') r (expected_stages (renderFlag (dat node))))"
    using first_dispatch [of s node p n] by blast

next
  assume a: "wf_cache s \<and> (dispatch n node s = Some (Inr (node', s')) \<or>
                  render n node s = Some (Inr (node', s')))"
  then have r: "wf_cache s' \<and> cache_extends s s'"
    using dispatch_cache [of s n node node' s'] render_cache [of s n node node' s'] by blast
  then show "wf_cache s'" by simp
  fix k b
  assume "compiled s k b"
  with r show "compiled s' k b" using compiled_extends by blast
  fix fs
  assume "chain_from (flow_heap s) b fs"
  with r \<open>compiled s k b\<close> show "chain_from (flow_heap s') b fs" using compiled_extends by blast

next
  assume a: "compiled s (renderFlag (dat node1)) a \<and> renderFlag (dat node2) = renderFlag (dat node1)"
  then show "dispatch n node1 s = call_func n (Some a) node1 s"
    and "dispatch n node2 s = call_func n (Some a) node2 s"
    and "flow_func (flow_heap s ! a) \<noteq> F_init"
    by (simp_all add: dispatch_def compiled_def)
qed

lemma expected_RENDER: "expected_stages RENDER = [F_render]"
  by (simp add: expected_stages_def stage_names_def upt_conv_Cons bit_numeral_simps RENDER_def)

theorem cache_compiles_each_mask_once_witness:
  "wf_cache (RenderFlow_init example_walker module_state) \<and>
   1 \<le> renderFlag (dat (example_node 4 (Some 3) RENDER (Some PlainComp) [])) \<and>
   flows (RenderFlow_init example_walker module_state)
     (renderFlag (dat (example_node 4 (Some 3) RENDER (Some PlainComp) []))) = Some 32 \<and>
   flow_func (flow_heap (RenderFlow_init example_walker module_state) ! 32) = F_init \<and>
   (\<exists>r h. getFlow RENDER (flow_heap (RenderFlow_init example_walker module_state)) =
            (Some r, flow_heap (RenderFlow_init example_walker module_state) @ h) \<and>
          chain_from (flow_heap (RenderFlow_init example_walker module_state) @ h) r [F_render] \<and>
          dispatch (Suc 2) (example_node 4 (Some 3) RENDER (Some PlainComp) [])
            (RenderFlow_init example_walker module_state) =
          call_func 2 (Some r) (example_node 4 (Some 3) RENDER (Some PlainComp) [])
            ((RenderFlow_init example_walker module_state)
               \<lparr>flows := (flows (RenderFlow_init example_walker module_state))(RENDER \<mapsto> r),
                 flow_heap := flow_heap (RenderFlow_init example_walker module_state) @ h\<rparr>)) \<and>
   walker (RenderFlow_init dirty_walker (RenderFlow_init example_walker module_state)) =
     Some dirty_walker \<and>
   length (flow_heap (RenderFlow_init dirty_walker (RenderFlow_init example_walker module_state))) =
     2047 \<and>
   (\<exists>p. flows (RenderFlow_init dirty_walker (RenderFlow_init example_walker module_state)) RENDER =
          Some p \<and> 1024 \<le> p \<and>
        flow_heap (RenderFlow_init dirty_walker (RenderFlow_init example_walker module_state)) ! p =
          new_RenderFlow)"
proof -
  let ?s = "RenderFlow_init example_walker module_state"
  let ?n = "example_node 4 (Some 3) RENDER (Some PlainComp) []"
  have f: "renderFlag (dat ?n) = RENDER" by (simp add: example_node_def)
  have h: "wf_cache ?s" "1 \<le> renderFlag (dat ?n)" "flows ?s (renderFlag (dat ?n)) = Some 32"
    "flow_func (flow_heap ?s ! 32) = F_init"
    unfolding f
    by (rule wf_cache_init)
       (simp_all add: RENDER_def RenderFlow_init_state new_RenderFlow_def)
  note t = cache_compiles_each_mask_once [where w = dirty_walker and ?s0.0 = ?s and s = ?s and node = ?n
      and p = 32 and n = 2]
  from t h
  have "\<exists>r h. getFlow (renderFlag (dat ?n)) (flow_heap ?s) = (Some r, flow_heap ?s @ h) \<and>
         chain_from (flow_heap ?s @ h) r (expected_stages (renderFlag (dat ?n))) \<and>
         compiled (?s\<lparr>flows := (flows ?s)(renderFlag (dat ?n) \<mapsto> r),
                     flow_heap := flow_heap ?s @ h\<rparr>) (renderFlag (dat ?n)) r \<and>
         dispatch (Suc 2) ?n ?s =
           call_func 2 (Some r) ?n
             (?s\<lparr>flows := (flows ?s)(renderFlag (dat ?n) \<mapsto> r), flow_heap := flow_heap ?s @ h\<rparr>) \<and>
         (\<forall>node' s'. dispatch (Suc 2) ?n ?s = Some (Inr (node', s')) \<longrightarrow>
            wf_cache s' \<and> compiled s' (renderFlag (dat ?n)) r \<and>
            chain_from (flow_heap s') r (expected_stages (renderFlag (dat ?n))))"
    by blast
  then have a: "\<exists>r h. getFlow RENDER (flow_heap ?s) = (Some r, flow_heap ?s @ h) \<and>
         chain_from (flow_heap ?s @ h) r [F_render] \<and>
         dispatch (Suc 2) ?n ?s =
           call_func 2 (Some r) ?n
             (?s\<lparr>flows := (flows ?s)(RENDER \<mapsto> r), flow_heap := flow_heap ?s @ h\<rparr>)"
    unfolding f expected_RENDER by blast
  have l: "length (flow_heap ?s) = 1024" by (simp add: RenderFlow_init_state)
  from t h(1) have b: "walker (RenderFlow_init dirty_walker ?s) = Some dirty_walker"
    and c: "flow_heap (RenderFlow_init dirty_walker ?s) = flow_heap ?s @ replicate 1023 new_RenderFlow"
    and d: "\<forall>m. 1 \<le> m \<and> m < FINAL \<longrightarrow>
         (\<exists>p. flows (RenderFlow_init dirty_walker ?s) m = Some p \<and>
              length (flow_heap ?s) \<le> p \<and>
              p < length (flow_heap (RenderFlow_init dirty_walker ?s)) \<and>
              flow_heap (RenderFlow_init dirty_walker ?s) ! p = new_RenderFlow \<and>
              (\<forall>m'. 1 \<le> m' \<and> m' < FINAL \<and> m' \<noteq> m \<longrightarrow>
                 flows (RenderFlow_init dirty_walker ?s) m' \<noteq> Some p))"
    by blast+
  have "1 \<le> RENDER \<and> RENDER < FINAL" by (simp add: RENDER_def FINAL_def)
  with d have e: "\<exists>p. flows (RenderFlow_init dirty_walker ?s) RENDER = Some p \<and> 1024 \<le> p \<and>
        flow_heap (RenderFlow_init dirty_walker ?s) ! p = new_RenderFlow"
    unfolding l by blast
  from c l have g: "length (flow_heap (RenderFlow_init dirty_walker ?s)) = 2047" by simp
  from h a b g e show ?thesis by blast
qed

lemma getFlow_single:
  "getFlow COLOR module_heap =
     (Some 1, [\<lparr>flow_func = F_doNothing, flow_next = Some 0\<rparr>,
               \<lparr>flow_func = F_color, flow_next = Some 0\<rparr>])"
  "getFlow POST_RENDER module_heap =
     (Some 1, [\<lparr>flow_func = F_doNothing, flow_next = Some 0\<rparr>,
               \<lparr>flow_func = F_postRender, flow_next = Some 0\<rparr>])"
  by (simp_all add: getFlow_eval module_heap_eq new_RenderFlow_def EMPTY_FLOW_def)

lemma example_chain_state_fields [simp]:
  "flow_heap (example_chain_state m w) = snd (getFlow m module_heap)"
  "walker (example_chain_state m w) = Some w"
  "trace (example_chain_state m w) = []"
  by (simp_all add: example_chain_state_def walking_state_def module_state_def)

lemma this_next_emit [simp]: "this_next a (emit e s) = this_next a s"
  by (simp add: this_next_def)

text \<open>
  Claim C10. Call a flow object on a visible node that has no render component. If the
  object's function is the PostUpdateRenderData or the PostRender stage, the call reads
  \<open>comp._postAssembler\<close> of the missing component and raises a \<open>TypeError\<close>. If it is
  the Render or the CustomDrawRender stage, the call is the call of the next object on
  the same node; if it is the Color stage, the call of the next object on the node with
  its COLOR bit cleared: these stages guard the component.
\<close>

theorem post_stages_dereference_missing_component:
  assumes "\<not> invisible node" and "renderComponent (dat node) = None"
    and "a < length (flow_heap s)"
  shows "(flow_func (flow_heap s ! a) = F_postUpdateRenderData \<longrightarrow>
            call_func (Suc n) (Some a) node s = Some (Inl TypeError)) \<and>
         (flow_func (flow_heap s ! a) = F_postRender \<longrightarrow>
            call_func (Suc n) (Some a) node s = Some (Inl TypeError)) \<and>
         (flow_func (flow_heap s ! a) = F_render \<longrightarrow>
            call_func (Suc n) (Some a) node s = call_func n (this_next a s) node s) \<and>
         (flow_func (flow_heap s ! a) = F_customIARender \<longrightarrow>
            call_func (Suc n) (Some a) node s = call_func n (this_next a s) node s) \<and>
         (flow_func (flow_heap s ! a) = F_color \<longrightarrow>
            call_func (Suc n) (Some a) node s =
              call_func n (this_next a s) (clear_flag COLOR node) s)"
  using assms post_stages_without_component [OF assms(1,2)]
  by (simp add: call_func_stage throw_def)

theorem post_stages_dereference_missing_component_witness:
  "\<not> invisible (example_node 1 None POST_RENDER None []) \<and>
   renderComponent (dat (example_node 1 None POST_RENDER None [])) = None \<and>
   1 < length (flow_heap (example_chain_state POST_RENDER example_walker)) \<and>
   flow_func (flow_heap (example_chain_state POST_RENDER example_walker) ! 1) = F_postRender \<and>
   call_func (Suc 1) (Some 1) (example_node 1 None POST_RENDER None [])
     (example_chain_state POST_RENDER example_walker) = Some (Inl TypeError)"
proof -
  have a: "\<not> invisible (example_node 1 None POST_RENDER None [])"
    "renderComponent (dat (example_node 1 None POST_RENDER None [])) = None"
    "1 < length (flow_heap (example_chain_state POST_RENDER example_walker))"
    by (simp_all add: invisible_def example_node_def getFlow_single)
  have f: "flow_func (flow_heap (example_chain_state POST_RENDER example_walker) ! 1) = F_postRender"
    by (simp add: getFlow_single)
  from post_stages_dereference_missing_component [OF a, of 1] f
  have "call_func (Suc 1) (Some 1) (example_node 1 None POST_RENDER None [])
     (example_chain_state POST_RENDER example_walker) = Some (Inl TypeError)"
    by blast
  with a f show ?thesis by blast
qed

text \<open>
  Claim C4. Call a flow object whose function is the Color stage on a visible node. The
  call is the call of the next object on the node with its COLOR bit (and no other)
  cleared. Without a render component \<open>_proto._color\<close> clears the bit itself, in the
  state as it is. With a render component it calls the component's \<open>_updateColor\<close>
  first: the next object is called in the state that call leaves, and the cleared bit
  is the one \<open>_updateColor\<close> clears.
\<close>

theorem color_stage_clears_bit:
  assumes "\<not> invisible node" and "a < length (flow_heap s)"
    and "flow_func (flow_heap s ! a) = F_color"
  shows "call_func (Suc n) (Some a) node s =
           call_func n (this_next a s) (clear_flag COLOR node)
             (case renderComponent (dat node) of
                None \<Rightarrow> s
              | Some c \<Rightarrow> emit (UpdateColor (nid (dat node)) (color_val (dat node))) s) \<and>
         (\<forall>c. comp_updateColor c node s =
            (clear_flag COLOR node, emit (UpdateColor (nid (dat node)) (color_val (dat node))) s)) \<and>
         renderFlag (dat (clear_flag COLOR node)) = renderFlag (dat node) AND NOT COLOR \<and>
         \<not> bit (renderFlag (dat (clear_flag COLOR node))) 4"
proof -
  have "call_func (Suc n) (Some a) node s =
      flow_color (\<lambda>node s. call_func n (this_next a s) node s) node s"
    using assms(2,3) by (simp add: call_func_stage)
  also have "\<dots> = call_func n (this_next a s) (clear_flag COLOR node)
             (case renderComponent (dat node) of
                None \<Rightarrow> s
              | Some c \<Rightarrow> emit (UpdateColor (nid (dat node)) (color_val (dat node))) s)"
    by (subst color_stage_cases(1) [OF assms(1)])
       (simp add: color_stage_cases(3) [OF assms(1)] split: option.splits)
  finally show ?thesis
    using color_stage_cases(4,5) [OF assms(1)] by (simp add: comp_updateColor_def)
qed

theorem color_stage_clears_bit_witness:
  "\<not> invisible (example_node 1 None COLOR (Some PlainComp) []) \<and>
   1 < length (flow_heap (example_chain_state COLOR example_walker)) \<and>
   flow_func (flow_heap (example_chain_state COLOR example_walker) ! 1) = F_color \<and>
   call_func (Suc 1) (Some 1) (example_node 1 None COLOR (Some PlainComp) [])
     (example_chain_state COLOR example_walker) =
     Some (Inr (example_node 1 None 0 (Some PlainComp) [],
                emit (UpdateColor 1 \<lparr>val_rgb = 7, val_a = 255\<rparr>)
                  (example_chain_state COLOR example_walker))) \<and>
   \<not> invisible (example_node 2 None (COLOR OR RENDER) None []) \<and>
   call_func (Suc 1) (Some 1) (example_node 2 None (COLOR OR RENDER) None [])
     (example_chain_state COLOR example_walker) =
     Some (Inr (example_node 2 None RENDER None [], example_chain_state COLOR example_walker))"
proof -
  have a: "\<not> invisible (example_node 1 None COLOR (Some PlainComp) [])"
    "1 < length (flow_heap (example_chain_state COLOR example_walker))"
    "flow_func (flow_heap (example_chain_state COLOR example_walker) ! 1) = F_color"
    by (simp_all add: invisible_def example_node_def getFlow_single)
  have b: "\<not> invisible (example_node 2 None (COLOR OR RENDER) None [])"
    by (simp add: invisible_def example_node_def)
  have c: "clear_flag COLOR (example_node 1 None COLOR (Some PlainComp) []) =
             example_node 1 None 0 (Some PlainComp) []"
    "clear_flag COLOR (example_node 2 None (COLOR OR RENDER) None []) =
             example_node 2 None RENDER None []"
    by (simp_all add: clear_flag_def upd_def example_node_def COLOR_def RENDER_def)
  have d: "\<And>node e. call_func 1 (this_next 1 (example_chain_state COLOR example_walker)) node
             (emit e (example_chain_state COLOR example_walker)) =
           Some (Inr (node, emit e (example_chain_state COLOR example_walker)))"
    "\<And>node. call_func 1 (this_next 1 (example_chain_state COLOR example_walker)) node
             (example_chain_state COLOR example_walker) =
           Some (Inr (node, example_chain_state COLOR example_walker))"
    by (simp_all add: this_next_def getFlow_single call_func_stage flow_doNothing_def ok_def
          emit_def eval_nat_numeral)
  have f: "renderComponent (dat (example_node 1 None COLOR (Some PlainComp) [])) = Some PlainComp"
    "nid (dat (example_node 1 None COLOR (Some PlainComp) [])) = 1"
    "color_val (dat (example_node 1 None COLOR (Some PlainComp) [])) = \<lparr>val_rgb = 7, val_a = 255\<rparr>"
    "renderComponent (dat (example_node 2 None (COLOR OR RENDER) None [])) = None"
    by (simp_all add: example_node_def)
  from color_stage_clears_bit [OF a, of 1, THEN conjunct1]
  have "call_func (Suc 1) (Some 1) (example_node 1 None COLOR (Some PlainComp) [])
     (example_chain_state COLOR example_walker) =
     Some (Inr (example_node 1 None 0 (Some PlainComp) [],
                emit (UpdateColor 1 \<lparr>val_rgb = 7, val_a = 255\<rparr>)
                  (example_chain_state COLOR example_walker)))"
    by (simp only: f c d option.case)
  moreover from color_stage_clears_bit [OF b a(2,3), of 1, THEN conjunct1]
  have "call_func (Suc 1) (Some 1) (example_node 2 None (COLOR OR RENDER) None [])
     (example_chain_state COLOR example_walker) =
     Some (Inr (example_node 2 None RENDER None [], example_chain_state COLOR example_walker))"
    by (simp only: f c d option.case)
  ultimately show ?thesis using a b by blast
qed

end
